theory Spec2Isabelle
  imports Main "HOL-Library.Sublist"
begin

section \<open>Tokens, positions and diagnostics\<close>

text \<open>
  The binary tree is the only runtime value of WHILE: \<open>null\<close> or an object
  \<open>{left, right}\<close>.
\<close>

datatype tree = Nil | Node tree tree

datatype tkn_type = Identifier | Operation | Symbol | Number | Expression

text \<open>A token's \<open>value\<close> is a string, or a number for the tokens of type \<open>number\<close>.\<close>

datatype tkn_value = Str string | Num nat

record position =
  row :: nat
  col :: nat

record token =
  ttype :: tkn_type
  tvalue :: tkn_value
  tpos :: position

record error =
  position :: position
  message :: string

text \<open>
  Modelled from the spec: the token constants imported from \<open>types/tokens\<close> and
  \<open>types/extendedTokens\<close> are not part of the sources at hand; they are the lexemes
  listed in section 6 of the specification.
\<close>

definition TKN_ASSGN :: string where "TKN_ASSGN = '':=''"
definition TKN_BLOCK_CLS :: string where "TKN_BLOCK_CLS = ''}''"
definition TKN_BLOCK_OPN :: string where "TKN_BLOCK_OPN = ''{''"
definition TKN_ELSE :: string where "TKN_ELSE = ''else''"
definition TKN_HD :: string where "TKN_HD = ''hd''"
definition TKN_IF :: string where "TKN_IF = ''if''"
definition TKN_PREN_CLS :: string where "TKN_PREN_CLS = '')''"
definition TKN_PREN_OPN :: string where "TKN_PREN_OPN = ''(''"
definition TKN_READ :: string where "TKN_READ = ''read''"
definition TKN_SEP :: string where "TKN_SEP = '';''"
definition TKN_TL :: string where "TKN_TL = ''tl''"
definition TKN_WHILE :: string where "TKN_WHILE = ''while''"
definition TKN_WRITE :: string where "TKN_WRITE = ''write''"
definition TKN_CASE :: string where "TKN_CASE = ''case''"
definition TKN_COLON :: string where "TKN_COLON = '':''"
definition TKN_DEFAULT :: string where "TKN_DEFAULT = ''default''"
definition TKN_SWITCH :: string where "TKN_SWITCH = ''switch''"

lemmas TKN_defs = TKN_ASSGN_def TKN_BLOCK_CLS_def TKN_BLOCK_OPN_def TKN_ELSE_def TKN_HD_def
  TKN_IF_def TKN_PREN_CLS_def TKN_PREN_OPN_def TKN_READ_def TKN_SEP_def TKN_TL_def
  TKN_WHILE_def TKN_WRITE_def TKN_CASE_def TKN_COLON_def TKN_DEFAULT_def TKN_SWITCH_def

text \<open>Decimal rendering of a number, as \<open>toString\<close> gives it.\<close>

fun string_of_nat :: "nat \<Rightarrow> string" where
  "string_of_nat n =
     (if n < 10 then [char_of (48 + n)]
      else string_of_nat (n div 10) @ [char_of (48 + n mod 10)])"

declare string_of_nat.simps [simp del]

fun toStr :: "tkn_value \<Rightarrow> string" where
  "toStr (Str s) = s"
| "toStr (Num n) = string_of_nat n"

fun type_name :: "tkn_type \<Rightarrow> string" where
  "type_name Identifier = ''identifier''"
| "type_name Operation = ''operation''"
| "type_name Symbol = ''symbol''"
| "type_name Number = ''number''"
| "type_name Expression = ''expression''"

definition dq :: string where "dq = [CHR 0x22]"

text \<open>\<open>expected.join('", "')\<close>\<close>

fun join :: "string \<Rightarrow> string list \<Rightarrow> string" where
  "join sep [] = []"
| "join sep [x] = x"
| "join sep (x # y # ys) = x @ sep @ join sep (y # ys)"

text \<open>A JavaScript string is truthy when it is defined and not empty.\<close>

fun truthy :: "string option \<Rightarrow> bool" where
  "truthy None = False"
| "truthy (Some s) = (s \<noteq> [])"

text \<open>
  Modelled from the spec: \<open>incrementPos\<close> of \<open>types/position\<close> is not part of the
  sources at hand. Section 3: advancing past a token increments the column by the token's
  printed width; newlines reset the column.
\<close>

fun incrementPos :: "position \<Rightarrow> string \<Rightarrow> position" where
  "incrementPos p [] = p"
| "incrementPos p (c # cs) =
     incrementPos (if c = CHR 0x0A then \<lparr>row = row p + 1, col = 0\<rparr> else p\<lparr>col := col p + 1\<rparr>) cs"

subsection \<open>The error manager\<close>

text \<open>
  Modelled from the spec: the base class of \<open>utils/errorManager\<close> is not part of the
  sources at hand. Section 3: error records \<open>{position, message}\<close> are accumulated in
  insertion order and never de-duplicated.
\<close>

definition addError :: "error list \<Rightarrow> position \<Rightarrow> string \<Rightarrow> error list" where
  "addError errs p msg = errs @ [\<lparr>position = p, message = msg\<rparr>]"

definition em_unexpectedValue ::
  "error list \<Rightarrow> position \<Rightarrow> string \<Rightarrow> string option \<Rightarrow> string list \<Rightarrow> error list" where
  "em_unexpectedValue errs p ty actual expected =
     (let msg = ''Unexpected '' @ ty;
          msg = (if expected = [] then
                   (if truthy actual then msg @ '': '' @ dq @ the actual @ dq else msg)
                 else
                   (let msg = (if truthy actual then msg @ '' '' @ dq @ the actual @ dq else msg)
                    in if length expected = 1 then msg @ '': Expected '' @ dq @ hd expected @ dq
                       else msg @ '': Expected one of '' @ dq @ join (dq @ '', '' @ dq) expected @ dq))
      in addError errs p msg)"

definition em_unexpectedToken ::
  "error list \<Rightarrow> position \<Rightarrow> string option \<Rightarrow> string list \<Rightarrow> error list" where
  "em_unexpectedToken errs p actual expected = em_unexpectedValue errs p ''token'' actual expected"

definition em_unexpectedEOI :: "error list \<Rightarrow> position \<Rightarrow> string list \<Rightarrow> error list" where
  "em_unexpectedEOI errs p expected = em_unexpectedValue errs p ''end of input'' None expected"

subsection \<open>The state manager: a queue over the caller's token array\<close>

text \<open>
  \<open>tokens\<close> is the array handed to the parser: the constructor stores the reference, so
  every \<open>shift\<close> removes a token from the caller's array as well.
\<close>

record state =
  tokens :: "token list"
  pos :: position
  lastToken :: "token option"
  errors :: "error list"

definition StateManager :: "token list \<Rightarrow> state" where
  "StateManager tks = \<lparr>tokens = tks, pos = \<lparr>row = 0, col = 0\<rparr>, lastToken = None, errors = []\<rparr>"

definition next_tok :: "state \<Rightarrow> token option \<times> state" where
  "next_tok st =
     (case tokens st of
        t # ts \<Rightarrow> (Some t, st\<lparr>tokens := ts, pos := tpos t, lastToken := Some t\<rparr>)
      | [] \<Rightarrow>
          (None,
           (case lastToken st of
              None \<Rightarrow> st\<lparr>pos := incrementPos (pos st) ''''\<rparr>
            | Some l \<Rightarrow> st\<lparr>pos := incrementPos (pos st) (toStr (tvalue l))\<rparr>)))"

definition peek :: "state \<Rightarrow> token option" where
  "peek st = (case tokens st of [] \<Rightarrow> None | t # ts \<Rightarrow> Some t)"

definition st_addError :: "state \<Rightarrow> string \<Rightarrow> state" where
  "st_addError st msg = st\<lparr>errors := addError (errors st) (pos st) msg\<rparr>"

definition unexpectedValue ::
  "state \<Rightarrow> string \<Rightarrow> tkn_value option \<Rightarrow> string list \<Rightarrow> state" where
  "unexpectedValue st ty actual expected =
     st\<lparr>errors := em_unexpectedValue (errors st) (pos st) ty (map_option toStr actual) expected\<rparr>"

definition unexpectedToken :: "state \<Rightarrow> tkn_value option \<Rightarrow> string list \<Rightarrow> state" where
  "unexpectedToken st actual expected =
     st\<lparr>errors := em_unexpectedToken (errors st) (pos st) (map_option toStr actual) expected\<rparr>"

definition unexpectedEOI :: "state \<Rightarrow> string list \<Rightarrow> state" where
  "unexpectedEOI st expected = st\<lparr>errors := em_unexpectedEOI (errors st) (pos st) expected\<rparr>"

definition unexpectedEOICustom :: "state \<Rightarrow> string \<Rightarrow> state" where
  "unexpectedEOICustom st msg =
     st\<lparr>errors := addError (errors st) (pos st) (''Unexpected end of input: '' @ msg)\<rparr>"

definition unexpectedTokenCustom :: "state \<Rightarrow> tkn_value option \<Rightarrow> string \<Rightarrow> state" where
  "unexpectedTokenCustom st actual msg =
     (let a = map_option toStr actual
      in if truthy a
         then st\<lparr>errors := addError (errors st) (pos st)
                 (''Unexpected token '' @ dq @ the a @ dq @ '': '' @ msg)\<rparr>
         else st\<lparr>errors := addError (errors st) (pos st) (''Unexpected token: '' @ msg)\<rparr>)"

datatype ParseStatus = OK | ERROR | EOI

definition expect :: "state \<Rightarrow> string list \<Rightarrow> (ParseStatus \<times> token option) \<times> state" where
  "expect st expected =
     (case next_tok st of
        (None, st1) \<Rightarrow> ((EOI, None), unexpectedEOI st1 expected)
      | (Some first, st1) \<Rightarrow>
          if expected = [] then ((OK, Some first), st1)
          else if \<exists>e \<in> set expected. tvalue first = Str e then ((OK, Some first), st1)
          else ((ERROR, Some first), unexpectedToken st1 (Some (tvalue first)) expected))"

text \<open>
  \<open>consumeUntil\<close>: drain the queue until the next token is one of \<open>expected\<close> or the
  queue is empty; the terminator stays in the queue. The popped tokens are returned.
\<close>

function consumeUntil :: "state \<Rightarrow> string list \<Rightarrow> token list \<Rightarrow> token list \<times> state" where
  "consumeUntil st expected res =
     (case peek st of
        None \<Rightarrow> (res, st)
      | Some nxt \<Rightarrow>
          if \<exists>e \<in> set expected. tvalue nxt = Str e then (res, st)
          else (case next_tok st of (t, st1) \<Rightarrow> consumeUntil st1 expected (res @ [the t])))"
  by pat_completeness auto
termination
  by (relation "measure (\<lambda>(st, e, r). length (tokens st))")
     (auto simp: peek_def next_tok_def split: list.splits)

declare consumeUntil.simps [simp del]

text \<open>\<open>_numToTree\<close>: one more layer \<open>{left: null, right: tree}\<close> per unit.\<close>

fun numToTree_loop :: "nat \<Rightarrow> tree \<Rightarrow> tree" where
  "numToTree_loop 0 t = t"
| "numToTree_loop (Suc n) t = numToTree_loop n (Node Nil t)"

definition numToTree :: "nat \<Rightarrow> tree" where
  "numToTree n = numToTree_loop n Nil"


section \<open>The abstract syntax tree\<close>

text \<open>
  An identifier node is the identifier token itself and a tree literal is \<open>{type: 'tree', tree}\<close>;
  neither carries a \<open>complete\<close> flag. Every other node carries one, and a child slot the parser
  could not fill holds \<open>null\<close> (\<open>None\<close>).
\<close>

datatype expr =
    EIdent token
  | ETree tree
  | EOp bool token "expr option list"

datatype cmd =
    Assign bool token "expr option"
  | Cond bool "expr option" "cmd option list" "cmd option list"
  | Loop bool "expr option" "cmd option list"
  | Switch bool "expr option" "switch_case list" switch_default
and switch_case = SwitchCase bool expr "cmd option list"
and switch_default = SwitchDefault bool "cmd option list"

record prog =
  prog_complete :: bool
  prog_input :: "token option"
  prog_output :: "token option"
  prog_name :: "token option"
  prog_body :: "cmd option list"

record IntParserOpts =
  pureOnly :: bool

text \<open>\<open>arg.type === 'identifier' || arg.type === 'tree' || arg.complete\<close>\<close>

fun leaf_or_complete :: "expr \<Rightarrow> bool" where
  "leaf_or_complete (EIdent t) = True"
| "leaf_or_complete (ETree t) = True"
| "leaf_or_complete (EOp c opr args) = c"

text \<open>
  \<open>(left.type === 'operation' || left.type === 'equal') && !left.complete\<close>; the parser
  never builds an \<open>equal\<close> node.
\<close>

fun incomplete_op :: "expr \<Rightarrow> bool" where
  "incomplete_op (EOp c opr args) = (\<not> c)"
| "incomplete_op e = False"

section \<open>The parser\<close>

function readExpr :: "state \<Rightarrow> IntParserOpts \<Rightarrow> expr option \<times> state" where
  "readExpr st opts =
     (case next_tok st of
        (None, st1) \<Rightarrow> (None, st1)
      | (Some first, st1) \<Rightarrow>
          if tvalue first = Str TKN_PREN_OPN then
            (case readExpr st1 opts of
               (expr, st2) \<Rightarrow>
                 (case next_tok st2 of
                    (None, st3) \<Rightarrow> (expr, unexpectedEOI st3 [TKN_PREN_CLS])
                  | (Some close, st3) \<Rightarrow>
                      if tvalue close = Str TKN_PREN_CLS then (expr, st3)
                      else (expr, unexpectedToken st3 (Some (tvalue close)) [TKN_PREN_CLS])))
          else if ttype first = Operation then
            (if tvalue first = Str TKN_HD \<or> tvalue first = Str TKN_TL then
               (case readExpr st1 opts of
                  (None, st2) \<Rightarrow> (Some (EOp False first [None]), st2)
                | (Some arg, st2) \<Rightarrow>
                    if leaf_or_complete arg then (Some (EOp True first [Some arg]), st2)
                    else (Some (EOp False first [Some arg]), st2))
             else
               (case readExpr st1 opts of
                  (left, st2) \<Rightarrow>
                    (case readExpr st2 opts of
                       (right, st3) \<Rightarrow>
                         if left = None \<or> right = None
                            \<or> incomplete_op (the left) \<or> incomplete_op (the right)
                         then (Some (EOp False first [left, right]), st3)
                         else (Some (EOp True first [left, right]), st3))))
          else if ttype first = Identifier then (Some (EIdent first), st1)
          else if \<not> pureOnly opts \<and> ttype first = Number then
            (Some (ETree (numToTree (case tvalue first of Num n \<Rightarrow> n | Str s \<Rightarrow> 0))), st1)
          else
            (None, unexpectedTokenCustom st1 (Some (tvalue first))
                     ''Expected an expression or an identifier''))"
  by pat_completeness auto


lemma tokens_next_tok [simp]: "tokens (snd (next_tok st)) = tl (tokens st)"
  by (simp add: next_tok_def split: list.splits option.splits)

lemma errors_next_tok [simp]: "errors (snd (next_tok st)) = errors st"
  by (simp add: next_tok_def split: list.splits option.splits)

lemma fst_next_tok [simp]: "fst (next_tok st) = peek st"
  by (simp add: next_tok_def peek_def split: list.splits option.splits)

lemma tokens_unexpected [simp]:
  "tokens (unexpectedEOI st e) = tokens st"
  "tokens (unexpectedToken st a e) = tokens st"
  "tokens (unexpectedValue st ty a e) = tokens st"
  "tokens (unexpectedEOICustom st m) = tokens st"
  "tokens (unexpectedTokenCustom st a m) = tokens st"
  "tokens (st_addError st m) = tokens st"
  by (simp_all add: unexpectedEOI_def unexpectedToken_def unexpectedValue_def
      unexpectedEOICustom_def unexpectedTokenCustom_def st_addError_def Let_def)

lemma tokens_expect [simp]: "tokens (snd (expect st e)) = tl (tokens st)"
  by (simp add: expect_def split_beta peek_def split: option.splits list.splits)

lemma readExpr_len_dom:
  "readExpr_dom (st, opts) \<Longrightarrow> length (tokens (snd (readExpr st opts))) \<le> length (tokens st)"
proof (induction st opts rule: readExpr.pinduct)
  case (1 st opts)
  note IH = 1(2)[OF prod.collapse] 1(3)[OF prod.collapse] 1(4)[OF prod.collapse]
            1(5)[OF prod.collapse _ _ _ _ prod.collapse]
  show ?case
  proof (cases "tokens st")
    case Nil
    then show ?thesis unfolding readExpr.psimps[OF 1(1)] by (simp add: split_beta peek_def)
  next
    case (Cons first ts)
    then have pk: "peek st = Some first" by (simp add: peek_def)
    note IH' = IH[unfolded fst_next_tok, OF pk]
    consider (paren) "tvalue first = Str TKN_PREN_OPN"
      | (hdtl) "tvalue first \<noteq> Str TKN_PREN_OPN" "ttype first = Operation"
               "tvalue first = Str TKN_HD \<or> tvalue first = Str TKN_TL"
      | (cons) "tvalue first \<noteq> Str TKN_PREN_OPN" "ttype first = Operation"
               "\<not> (tvalue first = Str TKN_HD \<or> tvalue first = Str TKN_TL)"
      | (other) "tvalue first \<noteq> Str TKN_PREN_OPN" "ttype first \<noteq> Operation"
      by blast
    then show ?thesis
    proof cases
      case paren
      from IH'(1)[OF paren] show ?thesis
        unfolding readExpr.psimps[OF 1(1)] using paren Cons
        by (auto simp: split_beta peek_def split: option.splits)
    next
      case hdtl
      from IH'(2)[OF hdtl] show ?thesis
        unfolding readExpr.psimps[OF 1(1)] using hdtl Cons
        by (auto simp: split_beta peek_def split: option.splits)
    next
      case cons
      from IH'(3)[OF cons] IH'(4)[OF cons] show ?thesis
        unfolding readExpr.psimps[OF 1(1)] using cons Cons
        by (auto simp: split_beta peek_def split: option.splits)
    next
      case other
      then show ?thesis
        unfolding readExpr.psimps[OF 1(1)] using Cons
        by (auto simp: split_beta peek_def split: option.splits)
    qed
  qed
qed

lemma readExpr_total: "All readExpr_dom"
proof (relation "measure (\<lambda>(st, opts). length (tokens st))", goal_cases)
  case 1
  show ?case by simp
next
  case (2 st opts x y x2)
  then have "y = snd (next_tok st)" "peek st = Some x2" by (simp_all add: prod_eq_iff)
  then show ?case by (auto simp: peek_def split: list.splits)
next
  case (3 st opts x y x2)
  then have "y = snd (next_tok st)" "peek st = Some x2" by (simp_all add: prod_eq_iff)
  then show ?case by (auto simp: peek_def split: list.splits)
next
  case (4 st opts x y x2)
  then have "y = snd (next_tok st)" "peek st = Some x2" by (simp_all add: prod_eq_iff)
  then show ?case by (auto simp: peek_def split: list.splits)
next
  case (5 st opts x y x2 xa ya)
  then have y: "y = snd (next_tok st)" "peek st = Some x2" by (simp_all add: prod_eq_iff)
  from 5 have "ya = snd (readExpr y opts)" by (simp add: prod_eq_iff)
  with 5 have "length (tokens ya) \<le> length (tokens y)"
    using readExpr_len_dom[of y opts] by simp
  with y show ?case by (auto simp: peek_def split: list.splits)
qed

termination readExpr
  by (rule readExpr_total)

declare readExpr.simps [simp del]

lemma readExpr_len: "length (tokens (snd (readExpr st opts))) \<le> length (tokens st)"
  using readExpr_len_dom readExpr_total by blast


subsection \<open>Statements, blocks and switches\<close>

text \<open>
  \<open>_readCase\<close> returns a \<open>switch_case\<close> or a \<open>switch_default\<close> node; \<open>_readSwitch\<close> tells
  them apart by their \<open>type\<close>.
\<close>

datatype switch_clause = ClauseCase switch_case | ClauseDefault switch_default

text \<open>
  The statement parsers call each other. The two \<open>while\<close> loops, of
  \<open>_readStatementList\<close> and of \<open>_readSwitch\<close>, are the functions
  \<open>readStatementList_loop\<close> and \<open>readSwitch_loop\<close>, whose extra arguments are the
  variables of the loop (\<open>res\<close>, \<open>status\<close>; \<open>status\<close>, \<open>cases\<close>, \<open>dflt\<close>);
  \<open>_readStatementList\<close> itself starts its loop on \<open>[]\<close> and \<open>OK\<close>.
\<close>

function readStmt :: "state \<Rightarrow> IntParserOpts \<Rightarrow> (ParseStatus \<times> cmd option) \<times> state"
  and readElse :: "state \<Rightarrow> IntParserOpts \<Rightarrow> (ParseStatus \<times> cmd option list) \<times> state"
  and readBlock :: "state \<Rightarrow> IntParserOpts \<Rightarrow> (ParseStatus \<times> cmd option list) \<times> state"
  and readStatementList_loop ::
    "state \<Rightarrow> IntParserOpts \<Rightarrow> cmd option list \<Rightarrow> ParseStatus
       \<Rightarrow> (ParseStatus \<times> cmd option list) \<times> state"
  and readCase :: "state \<Rightarrow> IntParserOpts \<Rightarrow> (ParseStatus \<times> switch_clause option) \<times> state"
  and readSwitch :: "state \<Rightarrow> IntParserOpts \<Rightarrow> (ParseStatus \<times> cmd option) \<times> state"
  and readSwitch_loop ::
    "state \<Rightarrow> IntParserOpts \<Rightarrow> ParseStatus \<Rightarrow> switch_case list \<Rightarrow> switch_default option
       \<Rightarrow> (ParseStatus \<times> switch_case list \<times> switch_default option) \<times> state"
  where
  "readStmt st opts =
     (case next_tok st of
        (None, st1) \<Rightarrow> ((EOI, None), st1)
      | (Some first, st1) \<Rightarrow>
          if tvalue first = Str TKN_IF then
            (case readExpr st1 opts of
               (cond, st2) \<Rightarrow>
                 (case readBlock st2 opts of
                    ((ifState, ifBlock), st3) \<Rightarrow>
                      (case readElse st3 opts of
                         ((elseState, elseBlock), st4) \<Rightarrow>
                           if cond \<noteq> None \<and> leaf_or_complete (the cond)
                              \<and> ifState = OK \<and> elseState = OK
                           then ((OK, Some (Cond True cond ifBlock elseBlock)), st4)
                           else ((ERROR, Some (Cond False cond ifBlock elseBlock)), st4))))
          else if tvalue first = Str TKN_WHILE then
            (case readExpr st1 opts of
               (cond, st2) \<Rightarrow>
                 (case readBlock st2 opts of
                    ((bodyState, body), st3) \<Rightarrow>
                      if bodyState = OK \<and> cond \<noteq> None
                      then ((OK, Some (Loop True cond body)), st3)
                      else ((if bodyState = EOI then EOI else ERROR,
                             Some (Loop False cond body)), st3)))
          else if ttype first = Identifier then
            (case expect st1 [TKN_ASSGN] of
               (e, st2) \<Rightarrow>
                 (case readExpr st2 opts of
                    (val, st3) \<Rightarrow>
                      if val \<noteq> None \<and> leaf_or_complete (the val)
                      then ((OK, Some (Assign True first val)), st3)
                      else ((ERROR, Some (Assign False first val)), st3)))
          else if \<not> pureOnly opts \<and> tvalue first = Str TKN_SWITCH then readSwitch st1 opts
          else
            ((ERROR, None),
             unexpectedTokenCustom st1 None
               (''Expected '' @ TKN_IF @ '' '' @ TKN_WHILE @ '' or an assignment statement'')))"
| "readElse st opts =
     (case peek st of
        None \<Rightarrow> ((EOI, []), unexpectedEOI st [TKN_BLOCK_CLS])
      | Some pk \<Rightarrow>
          if tvalue pk = Str TKN_ELSE then readBlock (snd (next_tok st)) opts
          else ((OK, []), st))"
| "readBlock st opts =
     (case expect st [TKN_BLOCK_OPN] of
        (e, st1) \<Rightarrow>
          (case peek st1 of
             None \<Rightarrow> ((EOI, []), unexpectedEOI (snd (next_tok st1)) [TKN_BLOCK_CLS])
           | Some first \<Rightarrow>
               if tvalue first = Str TKN_BLOCK_CLS then ((OK, []), snd (next_tok st1))
               else
                 (case readStatementList_loop st1 opts [] OK of
                    ((status, res), st2) \<Rightarrow>
                      if status = EOI then ((status, res), st2)
                      else
                        (case expect st2 [TKN_BLOCK_CLS] of
                           ((clsStat, t), st3) \<Rightarrow>
                             if clsStat = EOI then ((clsStat, res), st3)
                             else if status = OK \<and> clsStat = OK then ((OK, res), st3)
                             else ((ERROR, res), st3)))))"
| "readStatementList_loop st opts res status =
     (case readStmt st opts of
        ((statementStatus, statement), st1) \<Rightarrow>
          if statementStatus = EOI then ((EOI, res @ [statement]), st1)
          else
            (let st2 = (if statementStatus = ERROR
                        then snd (consumeUntil st1 [TKN_BLOCK_CLS, TKN_SEP] [])
                        else st1);
                 status1 = (if statementStatus = ERROR then ERROR else status)
             in case peek st2 of
                  None \<Rightarrow>
                    ((EOI, res @ [statement]),
                     unexpectedEOI (snd (next_tok st2)) [TKN_SEP, TKN_BLOCK_CLS])
                | Some nxt \<Rightarrow>
                    if tvalue nxt = Str TKN_SEP
                    then readStatementList_loop (snd (next_tok st2)) opts (res @ [statement]) status1
                    else ((status1, res @ [statement]), st2)))"
| "readCase st opts =
     (case next_tok st of
        (None, st1) \<Rightarrow> ((EOI, None), st1)
      | (Some caseTkn, st1) \<Rightarrow>
          if tvalue caseTkn = Str TKN_DEFAULT then
            (case expect st1 [TKN_COLON] of
               (e, st2) \<Rightarrow>
                 (case readStatementList_loop st2 opts [] OK of
                    ((bodyStatus, body), st3) \<Rightarrow>
                      if bodyStatus \<noteq> OK
                      then ((bodyStatus, Some (ClauseDefault (SwitchDefault False body))), st3)
                      else ((bodyStatus, Some (ClauseDefault (SwitchDefault True body))), st3)))
          else if tvalue caseTkn = Str TKN_CASE then
            (case readExpr st1 opts of
               (None, st2) \<Rightarrow> ((EOI, None), st2)
             | (Some expr, st2) \<Rightarrow>
                 (case expect st2 [TKN_COLON] of
                    (e, st3) \<Rightarrow>
                      (case readStatementList_loop st3 opts [] OK of
                         ((bodyStatus, body), st4) \<Rightarrow>
                           if bodyStatus = OK \<and> leaf_or_complete expr
                           then ((bodyStatus, Some (ClauseCase (SwitchCase True expr body))), st4)
                           else ((bodyStatus, Some (ClauseCase (SwitchCase False expr body))), st4))))
          else
            ((ERROR, None), unexpectedToken st1 (Some (tvalue caseTkn)) [TKN_CASE, TKN_DEFAULT]))"
| "readSwitch st opts =
     (case readExpr st opts of
        (inpExpr, st1) \<Rightarrow>
          (case expect st1 [TKN_BLOCK_OPN] of
             ((status, t), st2) \<Rightarrow>
               if status = EOI then ((EOI, None), st2)
               else
                 (case readSwitch_loop st2 opts status [] None of
                    ((status1, cases, dflt), st3) \<Rightarrow>
                      (let dflt1 = (case dflt of Some d \<Rightarrow> d | None \<Rightarrow> SwitchDefault True [])
                       in case expect st3 [TKN_BLOCK_CLS] of
                            ((s, t'), st4) \<Rightarrow>
                              (let status2 = (if s \<noteq> OK then s else status1)
                               in if status2 = OK
                                  then ((status2, Some (Switch True inpExpr cases dflt1)), st4)
                                  else ((status2, Some (Switch False inpExpr cases dflt1)), st4))))))"
| "readSwitch_loop st opts status cases dflt =
     (case peek st of
        None \<Rightarrow> ((status, cases, dflt), st)
      | Some nxt \<Rightarrow>
          if tvalue nxt \<noteq> Str TKN_DEFAULT \<and> tvalue nxt \<noteq> Str TKN_CASE
          then ((status, cases, dflt), st)
          else
            (let st1 = (if dflt \<noteq> None
                        then unexpectedToken st (Some (tvalue nxt)) [TKN_BLOCK_CLS]
                        else st)
             in case readCase st1 opts of
                  ((caseStatus, body), st2) \<Rightarrow>
                    (let status1 = (if status \<noteq> OK then caseStatus else status)
                     in if status1 = EOI \<or> body = None then ((status1, cases, dflt), st2)
                        else
                          (case body of
                             Some (ClauseCase c) \<Rightarrow>
                               readSwitch_loop st2 opts status1 (cases @ [c]) dflt
                           | Some (ClauseDefault d) \<Rightarrow>
                               readSwitch_loop st2 opts status1 cases (Some d)
                           | None \<Rightarrow> ((status1, cases, dflt), st2)))))"
  by pat_completeness auto


text \<open>
  Termination. No parser gives tokens back: on its domain, each leaves at most the tokens
  it was given, and \<open>_readCase\<close> takes at least one when there is one.
\<close>

abbreviation "parse_dom \<equiv>
  readStmt_readElse_readBlock_readStatementList_loop_readCase_readSwitch_readSwitch_loop_dom"

lemmas parse_pinduct =
  readStmt_readElse_readBlock_readStatementList_loop_readCase_readSwitch_readSwitch_loop.pinduct

lemma consumeUntil_len:
  "length (tokens (snd (consumeUntil st e r))) \<le> length (tokens st)"
proof (induction st e r rule: consumeUntil.induct)
  case (1 st expected res)
  show ?case
  proof (cases "tokens st")
    case Nil
    then show ?thesis by (subst consumeUntil.simps) (simp add: peek_def)
  next
    case (Cons t ts)
    show ?thesis
    proof (cases "\<exists>e \<in> set expected. tvalue t = Str e")
      case True
      with Cons show ?thesis by (subst consumeUntil.simps) (simp add: peek_def)
    next
      case False
      have "peek st = Some t" using Cons by (simp add: peek_def)
      from 1[OF this False prod.collapse] Cons False show ?thesis
        by (subst consumeUntil.simps) (simp add: peek_def split_beta)
    qed
  qed
qed

lemma parse_len_dom:
  shows "parse_dom (Inl (Inl (st, opts))) \<Longrightarrow>
           length (tokens (snd (readStmt st opts))) \<le> length (tokens st)"
    and "parse_dom (Inl (Inr (Inl (st2, opts2)))) \<Longrightarrow>
           length (tokens (snd (readElse st2 opts2))) \<le> length (tokens st2)"
    and "parse_dom (Inl (Inr (Inr (st3, opts3)))) \<Longrightarrow>
           length (tokens (snd (readBlock st3 opts3))) \<le> length (tokens st3)"
    and "parse_dom (Inr (Inl (Inl (st4, opts4, res4, status4)))) \<Longrightarrow>
           length (tokens (snd (readStatementList_loop st4 opts4 res4 status4))) \<le> length (tokens st4)"
    and "parse_dom (Inr (Inl (Inr (st5, opts5)))) \<Longrightarrow>
           length (tokens (snd (readCase st5 opts5))) \<le> length (tokens st5) - 1"
    and "parse_dom (Inr (Inr (Inl (st6, opts6)))) \<Longrightarrow>
           length (tokens (snd (readSwitch st6 opts6))) \<le> length (tokens st6)"
    and "parse_dom (Inr (Inr (Inr (st7, opts7, status7, cases7, dflt7)))) \<Longrightarrow>
           length (tokens (snd (readSwitch_loop st7 opts7 status7 cases7 dflt7))) \<le> length (tokens st7)"
proof (induct st opts and st2 opts2 and st3 opts3 and st4 opts4 res4 status4 and st5 opts5
         and st6 opts6 and st7 opts7 status7 cases7 dflt7 rule: parse_pinduct)
  case (1 st opts)
  show ?case
  proof (cases "tokens st")
    case Nil
    then show ?thesis unfolding readStmt.psimps[OF 1(1)] by (auto simp: split_beta peek_def)
  next
    case (Cons first ts)
    then have pk: "fst (next_tok st) = Some first" by (simp add: peek_def)
    let ?st1 = "snd (next_tok st)"
    note e1 = readExpr_len[of ?st1 opts]
    note e2 = readExpr_len[of "snd (expect ?st1 [TKN_ASSGN])" opts]
    consider (cond) "tvalue first = Str TKN_IF"
      | (loop) "tvalue first \<noteq> Str TKN_IF" "tvalue first = Str TKN_WHILE"
      | (assign) "tvalue first \<noteq> Str TKN_IF" "tvalue first \<noteq> Str TKN_WHILE"
                 "ttype first = Identifier"
      | (switch) "tvalue first \<noteq> Str TKN_IF" "tvalue first \<noteq> Str TKN_WHILE"
                 "ttype first \<noteq> Identifier" "\<not> pureOnly opts \<and> tvalue first = Str TKN_SWITCH"
      | (other) "tvalue first \<noteq> Str TKN_IF" "tvalue first \<noteq> Str TKN_WHILE"
                 "ttype first \<noteq> Identifier" "\<not> (\<not> pureOnly opts \<and> tvalue first = Str TKN_SWITCH)"
      by blast
    then show ?thesis
    proof cases
      case cond
      note a = 1(2)[OF prod.collapse pk cond prod.collapse]
      note b = 1(3)[OF prod.collapse pk cond prod.collapse prod.collapse prod.collapse]
      from a b e1 show ?thesis
        unfolding readStmt.psimps[OF 1(1)] using cond Cons
        by (auto simp: split_beta peek_def)
    next
      case loop
      note a = 1(4)[OF prod.collapse pk loop prod.collapse]
      from a e1 show ?thesis
        unfolding readStmt.psimps[OF 1(1)] using loop Cons
        by (auto simp: split_beta peek_def)
    next
      case assign
      from e2 show ?thesis
        unfolding readStmt.psimps[OF 1(1)] using assign Cons
        by (auto simp: split_beta peek_def)
    next
      case switch
      note a = 1(5)[OF prod.collapse pk switch]
      from a show ?thesis
        unfolding readStmt.psimps[OF 1(1)] using switch Cons
        by (auto simp: split_beta peek_def)
    next
      case other
      then show ?thesis
        unfolding readStmt.psimps[OF 1(1)] using Cons
        by (auto simp: split_beta peek_def)
    qed
  qed
next
  case (2 st opts)
  show ?case
  proof (cases "tokens st")
    case Nil
    then show ?thesis unfolding readElse.psimps[OF 2(1)] by (simp add: peek_def)
  next
    case (Cons t ts)
    then have pk: "peek st = Some t" by (simp add: peek_def)
    show ?thesis
    proof (cases "tvalue t = Str TKN_ELSE")
      case True
      from 2(2)[OF pk True] show ?thesis
        unfolding readElse.psimps[OF 2(1)] using True pk Cons by simp
    next
      case False
      then show ?thesis unfolding readElse.psimps[OF 2(1)] using pk by simp
    qed
  qed
next
  case (3 st opts)
  let ?st1 = "snd (expect st [TKN_BLOCK_OPN])"
  show ?case
  proof (cases "tokens ?st1")
    case Nil
    then have "peek ?st1 = None" by (simp add: peek_def)
    then show ?thesis unfolding readBlock.psimps[OF 3(1)] using Nil
      by (auto simp: split_beta)
  next
    case (Cons first ts)
    then have pk: "peek ?st1 = Some first" by (simp add: peek_def)
    have l: "length (tokens ?st1) \<le> length (tokens st)" by simp
    show ?thesis
    proof (cases "tvalue first = Str TKN_BLOCK_CLS")
      case True
      then show ?thesis unfolding readBlock.psimps[OF 3(1)] using pk l
        by (simp add: split_beta del: tokens_expect)
    next
      case False
      from 3(2)[OF prod.collapse pk False] l show ?thesis
        unfolding readBlock.psimps[OF 3(1)] using pk False
        by (auto simp add: split_beta simp del: tokens_expect)
           (simp_all add: tokens_expect)
    qed
  qed
next
  case (4 st opts res status)
  let ?r = "readStmt st opts"
  let ?st2 = "if fst (fst ?r) = ERROR
              then snd (consumeUntil (snd ?r) [TKN_BLOCK_CLS, TKN_SEP] []) else snd ?r"
  have l2: "length (tokens ?st2) \<le> length (tokens st)"
    using 4(2) consumeUntil_len[of "snd ?r" "[TKN_BLOCK_CLS, TKN_SEP]" "[]"] by auto
  show ?case
  proof (cases "fst (fst ?r) = EOI")
    case True
    with 4(2) show ?thesis unfolding readStatementList_loop.psimps[OF 4(1)]
      by (auto simp: split_beta)
  next
    case False
    show ?thesis
    proof (cases "peek ?st2")
      case None
      with l2 False show ?thesis unfolding readStatementList_loop.psimps[OF 4(1)]
        by (auto simp: split_beta Let_def)
    next
      case (Some nxt)
      show ?thesis
      proof (cases "tvalue nxt = Str TKN_SEP")
        case True
        note a = 4(3)[OF prod.collapse prod.collapse False refl refl Some True]
        from a l2 show ?thesis
          unfolding readStatementList_loop.psimps[OF 4(1)] using False Some True
          by (auto simp: split_beta Let_def)
      next
        case F: False
        from l2 show ?thesis
          unfolding readStatementList_loop.psimps[OF 4(1)] using False Some F
          by (auto simp: split_beta Let_def)
      qed
    qed
  qed
next
  case (5 st opts)
  show ?case
  proof (cases "tokens st")
    case Nil
    then show ?thesis unfolding readCase.psimps[OF 5(1)] by (auto simp: split_beta peek_def)
  next
    case (Cons caseTkn ts)
    then have pk: "fst (next_tok st) = Some caseTkn" by (simp add: peek_def)
    let ?st1 = "snd (next_tok st)"
    note e1 = readExpr_len[of ?st1 opts]
    consider (dflt) "tvalue caseTkn = Str TKN_DEFAULT"
      | (case_) "tvalue caseTkn \<noteq> Str TKN_DEFAULT" "tvalue caseTkn = Str TKN_CASE"
      | (other) "tvalue caseTkn \<noteq> Str TKN_DEFAULT" "tvalue caseTkn \<noteq> Str TKN_CASE"
      by blast
    then show ?thesis
    proof cases
      case dflt
      note a = 5(2)[OF prod.collapse pk dflt prod.collapse]
      from a show ?thesis
        unfolding readCase.psimps[OF 5(1)] using dflt Cons
        by (auto simp: split_beta peek_def)
    next
      case case_
      show ?thesis
      proof (cases "fst (readExpr ?st1 opts)")
        case None
        with e1 show ?thesis
          unfolding readCase.psimps[OF 5(1)] using case_ Cons
          by (auto simp: split_beta peek_def)
      next
        case (Some expr)
        note a = 5(3)[OF prod.collapse pk case_ prod.collapse Some prod.collapse]
        from a e1 show ?thesis
          unfolding readCase.psimps[OF 5(1)] using case_ Cons Some
          by (auto simp: split_beta peek_def)
      qed
    next
      case other
      then show ?thesis
        unfolding readCase.psimps[OF 5(1)] using Cons
        by (auto simp: split_beta peek_def)
    qed
  qed
next
  case (6 st opts)
  let ?st1 = "snd (readExpr st opts)"
  let ?e = "expect ?st1 [TKN_BLOCK_OPN]"
  note e1 = readExpr_len[of st opts]
  show ?case
  proof (cases "fst (fst ?e) = EOI")
    case True
    with e1 show ?thesis unfolding readSwitch.psimps[OF 6(1)]
      by (auto simp: split_beta)
  next
    case False
    note a = 6(2)[OF prod.collapse prod.collapse prod.collapse False]
    from a e1 show ?thesis unfolding readSwitch.psimps[OF 6(1)] using False
      by (auto simp: split_beta Let_def)
  qed
next
  case (7 st opts status cases dflt)
  show ?case
  proof (cases "tokens st")
    case Nil
    then show ?thesis unfolding readSwitch_loop.psimps[OF 7(1)] by (simp add: peek_def)
  next
    case (Cons nxt ts)
    then have pk: "peek st = Some nxt" by (simp add: peek_def)
    show ?thesis
    proof (cases "tvalue nxt \<noteq> Str TKN_DEFAULT \<and> tvalue nxt \<noteq> Str TKN_CASE")
      case True
      then show ?thesis unfolding readSwitch_loop.psimps[OF 7(1)] using pk by simp
    next
      case False
      let ?st1 = "if dflt \<noteq> None
                  then unexpectedToken st (Some (tvalue nxt)) [TKN_BLOCK_CLS] else st"
      let ?r = "readCase ?st1 opts"
      let ?status1 = "if status \<noteq> OK then fst (fst ?r) else status"
      have t1: "tokens ?st1 = tokens st" by simp
      note a = 7(2)[OF pk False refl]
      with t1 Cons have l: "length (tokens (snd ?r)) \<le> length (tokens st)"
        by simp
      show ?thesis
      proof (cases "?status1 = EOI \<or> snd (fst ?r) = None")
        case True
        with l show ?thesis
          unfolding readSwitch_loop.psimps[OF 7(1)] using pk False
          by (auto simp add: split_beta Let_def)
      next
        case F: False
        then obtain cl where cl: "snd (fst ?r) = Some cl" by auto
        show ?thesis
        proof (cases cl)
          case (ClauseCase c)
          note b = 7(3)[OF pk False refl prod.collapse prod.collapse refl F cl ClauseCase]
          from b l show ?thesis
            unfolding readSwitch_loop.psimps[OF 7(1)] using pk False F cl ClauseCase
            by (auto simp add: split_beta Let_def)
        next
          case (ClauseDefault d)
          note b = 7(4)[OF pk False refl prod.collapse prod.collapse refl F cl ClauseDefault]
          from b l show ?thesis
            unfolding readSwitch_loop.psimps[OF 7(1)] using pk False F cl ClauseDefault
            by (auto simp add: split_beta Let_def)
        qed
      qed
    qed
  qed
qed


text \<open>
  The measure: the number of tokens left, then the rank of the function among those called
  on the same tokens.
\<close>

fun parse_measure ::
  "((state \<times> IntParserOpts) + (state \<times> IntParserOpts) + (state \<times> IntParserOpts)) +
   ((state \<times> IntParserOpts \<times> cmd option list \<times> ParseStatus) + (state \<times> IntParserOpts)) +
   ((state \<times> IntParserOpts) +
    (state \<times> IntParserOpts \<times> ParseStatus \<times> switch_case list \<times> switch_default option))
   \<Rightarrow> nat" where
  "parse_measure (Inl (Inl (st, opts))) = 3 * length (tokens st)"
| "parse_measure (Inl (Inr (Inl (st, opts)))) = 3 * length (tokens st)"
| "parse_measure (Inl (Inr (Inr (st, opts)))) = 3 * length (tokens st)"
| "parse_measure (Inr (Inl (Inl (st, opts, res, status)))) = 3 * length (tokens st) + 1"
| "parse_measure (Inr (Inl (Inr (st, opts)))) = 3 * length (tokens st)"
| "parse_measure (Inr (Inr (Inl (st, opts)))) = 3 * length (tokens st) + 2"
| "parse_measure (Inr (Inr (Inr (st, opts, status, cases, dflt)))) = 3 * length (tokens st) + 1"

lemma len_next:
  "(x, y) = next_tok st \<Longrightarrow> x = Some x2 \<Longrightarrow> length (tokens y) < length (tokens st)"
  by (auto simp: prod_eq_iff peek_def split: list.splits)

lemma len_peek_next: "peek st = Some x2 \<Longrightarrow> length (tokens (snd (next_tok st))) < length (tokens st)"
  by (auto simp: peek_def split: list.splits)

lemma len_expr: "(xa, ya) = readExpr y opts \<Longrightarrow> length (tokens ya) \<le> length (tokens y)"
  using readExpr_len[of y opts] by (simp add: prod_eq_iff)

lemma len_expect: "(x, y) = expect st e \<Longrightarrow> length (tokens y) \<le> length (tokens st)"
  by (simp add: prod_eq_iff)

lemma len_expect_peek:
  "(x, y) = expect st e \<Longrightarrow> peek y = Some x2 \<Longrightarrow> length (tokens y) < length (tokens st)"
  by (cases "tokens st") (auto simp: prod_eq_iff peek_def split: list.splits)

lemma len_block:
  "(xb, yb) = readBlock ya opts \<Longrightarrow> parse_dom (Inl (Inr (Inr (ya, opts)))) \<Longrightarrow>
   length (tokens yb) \<le> length (tokens ya)"
  using parse_len_dom(3)[of ya opts] by (simp add: prod_eq_iff)

lemma len_stmt:
  "(x, y) = readStmt st opts \<Longrightarrow> parse_dom (Inl (Inl (st, opts))) \<Longrightarrow>
   length (tokens y) \<le> length (tokens st)"
  using parse_len_dom(1)[of st opts] by (simp add: prod_eq_iff)

lemma len_case:
  "(xa, y) = readCase x opts \<Longrightarrow> parse_dom (Inr (Inl (Inr (x, opts)))) \<Longrightarrow>
   length (tokens y) \<le> length (tokens x) - 1"
  using parse_len_dom(5)[of x opts] by (simp add: prod_eq_iff)

lemma parse_total: "All parse_dom"
proof (relation "measure parse_measure", goal_cases)
  case 1
  show ?case by simp
next
  case (2 st opts x y x2 xa ya)
  from len_next[OF 2(1,2)] len_expr[OF 2(4)] show ?case by simp
next
  case (3 st opts x y x2 xa ya xb yb xc yc)
  from len_next[OF 3(1,2)] len_expr[OF 3(4)] len_block[OF 3(5,7)] show ?case by simp
next
  case (4 st opts x y x2 xa ya)
  from len_next[OF 4(1,2)] len_expr[OF 4(5)] show ?case by simp
next
  case (5 st opts x y x2)
  from len_next[OF 5(1,2)] show ?case by simp
next
  case (6 st opts x2)
  from len_peek_next[OF 6(1)] show ?case by simp
next
  case (7 st opts x y x2)
  from len_expect_peek[OF 7(1,2)] show ?case by simp
next
  case (8 st opts res status)
  show ?case by simp
next
  case (9 st opts res status x y xa ya xb xc x2)
  have "length (tokens xb) \<le> length (tokens st)"
    using len_stmt[OF 9(1,8)] 9(4) consumeUntil_len[of y "[TKN_BLOCK_CLS, TKN_SEP]" "[]"]
    by (simp split: if_splits)
  with len_peek_next[OF 9(6)] show ?case by simp
next
  case (10 st opts x y x2 xa ya)
  from len_next[OF 10(1,2)] len_expect[OF 10(4)] show ?case by simp
next
  case (11 st opts x y x2 xa ya x2a xb yb)
  from len_next[OF 11(1,2)] len_expr[OF 11(5)] len_expect[OF 11(7)] show ?case by simp
next
  case (12 st opts x y xa ya xb yb)
  from len_expr[OF 12(1)] len_expect[OF 12(2)] show ?case by simp
next
  case (13 st opts status cases dflt x2 x)
  then show ?case by simp
next
  case (14 st opts status cases dflt x2 x xa y xb ya xc x2a x1)
  from 14(1) obtain t ts where "tokens st = t # ts"
    by (auto simp: peek_def split: list.splits)
  moreover from 14(3) have "tokens x = tokens st" by simp
  ultimately show ?case using len_case[OF 14(4,10)] by simp
next
  case (15 st opts status cases dflt x2 x xa y xb ya xc x2a x2b)
  from 15(1) obtain t ts where "tokens st = t # ts"
    by (auto simp: peek_def split: list.splits)
  moreover from 15(3) have "tokens x = tokens st" by simp
  ultimately show ?case using len_case[OF 15(4,10)] by simp
qed

termination readStmt
  by (rule parse_total)


declare readStmt.simps [simp del] readElse.simps [simp del] readBlock.simps [simp del]
  readStatementList_loop.simps [simp del] readCase.simps [simp del] readSwitch.simps [simp del]
  readSwitch_loop.simps [simp del]

definition readStatementList ::
  "state \<Rightarrow> IntParserOpts \<Rightarrow> (ParseStatus \<times> cmd option list) \<times> state" where
  "readStatementList st opts = readStatementList_loop st opts [] OK"

subsection \<open>The program frame\<close>

text \<open>
  \<open>_readProgramIntro\<close> with its two local functions \<open>_readInput\<close> and \<open>_readRead\<close>. Three
  diagnostics are written at the position of the token looked at (\<open>input.pos\<close>,
  \<open>read.pos\<close>, \<open>name.pos\<close>) instead of the position of the cursor.
\<close>

definition readInput :: "state \<Rightarrow> (ParseStatus \<times> token option) \<times> state" where
  "readInput st =
     (case peek st of
        None \<Rightarrow> ((EOI, None), unexpectedEOICustom (snd (next_tok st)) ''Missing input variable'')
      | Some inp \<Rightarrow>
          if tvalue inp = Str TKN_BLOCK_OPN then
            ((ERROR, None),
             st\<lparr>errors := addError (errors st) (tpos inp)
                  (''Unexpected token '' @ dq @ toStr (tvalue inp) @ dq @ '': Missing input variable'')\<rparr>)
          else if ttype inp = Identifier then ((OK, Some inp), snd (next_tok st))
          else ((ERROR, None), snd (next_tok st)))"

definition readRead :: "state \<Rightarrow> (ParseStatus \<times> token option) \<times> state" where
  "readRead st =
     (case peek st of
        None \<Rightarrow> ((EOI, None), unexpectedEOI (snd (next_tok st)) [TKN_READ])
      | Some rd \<Rightarrow>
          if tvalue rd = Str TKN_READ then readInput (snd (next_tok st))
          else if tvalue rd = Str TKN_BLOCK_OPN then
            ((ERROR, None),
             st\<lparr>errors := em_unexpectedToken (errors st) (tpos rd) None [TKN_READ]\<rparr>)
          else
            ((ERROR, if ttype rd = Identifier then Some rd else None),
             unexpectedToken (snd (next_tok st)) (Some (tvalue rd)) [TKN_READ]))"

definition readProgramIntro ::
  "state \<Rightarrow> (ParseStatus \<times> token option \<times> token option) \<times> state" where
  "readProgramIntro st =
     (case peek st of
        None \<Rightarrow>
          ((EOI, None, None), unexpectedEOICustom (snd (next_tok st)) ''Missing program name'')
      | Some nm \<Rightarrow>
          if tvalue nm = Str TKN_READ then
            (let st1 = snd (next_tok st);
                 st2 = st1\<lparr>errors := addError (errors st1) (tpos nm)
                             ''Unexpected token: Missing program name''\<rparr>
             in case readInput st2 of
                  ((inputStatus, inp), st3) \<Rightarrow>
                    if inputStatus = OK then ((OK, None, inp), st3)
                    else ((ERROR, None, inp), st3))
          else if tvalue nm = Str TKN_BLOCK_OPN then
            ((ERROR, None, None),
             st\<lparr>errors := em_unexpectedToken
                  (addError (errors st) (tpos nm) ''Unexpected token: Missing program name'')
                  (tpos nm) None [TKN_READ]\<rparr>)
          else
            (case readRead (snd (next_tok st)) of
               ((inputStatus, inputVar), st2) \<Rightarrow>
                 if ttype nm \<noteq> Identifier then ((ERROR, None, inputVar), st2)
                 else if inputStatus = OK then ((OK, Some nm, inputVar), st2)
                 else ((inputStatus, Some nm, inputVar), st2)))"

text \<open>\<open>_readProgramOutro\<close>: \<open>write\<close>, then the output identifier.\<close>

definition readProgramOutro :: "state \<Rightarrow> (ParseStatus \<times> token option) \<times> state" where
  "readProgramOutro st =
     (case next_tok st of
        (None, st1) \<Rightarrow> ((EOI, None), unexpectedEOI st1 [TKN_WRITE])
      | (Some wr, st1) \<Rightarrow>
          (let (err, out, st2) =
                 (if tvalue wr = Str TKN_WRITE then (OK, None, st1)
                  else if ttype wr = Identifier then
                    (ERROR, Some wr, unexpectedToken st1 (Some (tvalue wr)) [TKN_WRITE])
                  else
                    (ERROR, None,
                     unexpectedValue st1 (type_name (ttype wr)) (Some (tvalue wr)) [TKN_WRITE]))
           in case next_tok st2 of
                (None, st3) \<Rightarrow> ((EOI, out), unexpectedEOI st3 [''identifier''])
              | (Some outputVar, st3) \<Rightarrow>
                  if ttype outputVar = Identifier then ((err, Some outputVar), st3)
                  else
                    ((ERROR, out),
                     unexpectedTokenCustom st3 (Some (tvalue outputVar)) '' Expected an identifier'')))"

text \<open>
  \<open>_readProgram\<close>: the body is read unless the intro met the end of input, the outro
  unless the body did. One more token is taken after the outro and reported when there is
  one; the report does not change any status.
\<close>

definition readProgram :: "state \<Rightarrow> IntParserOpts \<Rightarrow> prog \<times> state" where
  "readProgram st opts =
     (case readProgramIntro st of
        ((progInStatus, nm, inp), st1) \<Rightarrow>
          (let ((bodyStatus, body), (outputStatus, out), st4) =
                 (if progInStatus \<noteq> EOI then
                    (case readBlock st1 opts of
                       ((bodyStatus, body), st2) \<Rightarrow>
                         if bodyStatus \<noteq> EOI then
                           (case readProgramOutro st2 of
                              (outro, st3) \<Rightarrow>
                                (case next_tok st3 of
                                   (None, st4) \<Rightarrow> ((bodyStatus, body), outro, st4)
                                 | (Some final, st4) \<Rightarrow>
                                     ((bodyStatus, body), outro,
                                      unexpectedTokenCustom st4 (Some (tvalue final))
                                        ''Expected end of input'')))
                         else ((bodyStatus, body), (OK, None), st2))
                  else ((OK, []), (OK, None), st1))
           in if nm \<noteq> None \<and> inp \<noteq> None \<and> out \<noteq> None \<and> bodyStatus = OK
                 \<and> progInStatus = OK \<and> outputStatus = OK
              then (\<lparr>prog_complete = True, prog_input = inp, prog_output = out,
                      prog_name = nm, prog_body = body\<rparr>, st4)
              else (\<lparr>prog_complete = False, prog_input = inp, prog_output = out,
                      prog_name = nm, prog_body = body\<rparr>, st4)))"

text \<open>
  \<open>parser\<close>: \<open>props\<close> and its field \<open>pureOnly\<close> are optional and default to \<open>false\<close>.
  The result is the pair of the program and the errors; the third component is what the
  call leaves in the array the caller passed, which is the queue of the state manager.
\<close>

record ParserOpts =
  pureOnly_opt :: "bool option"

definition parser ::
  "token list \<Rightarrow> ParserOpts option \<Rightarrow> (prog \<times> error list) \<times> token list" where
  "parser tks props =
     (let opts = \<lparr>pureOnly = (case props of
                                 None \<Rightarrow> False
                               | Some p \<Rightarrow> (case pureOnly_opt p of None \<Rightarrow> False | Some b \<Rightarrow> b))\<rparr>
      in case readProgram (StateManager tks) opts of
           (prg, st) \<Rightarrow> ((prg, errors st), tokens st))"

section \<open>The interpreter\<close>

text \<open>
  A JavaScript exception ends the evaluation: a \<open>TypeError\<close> where a property of
  \<open>null\<close> or \<open>undefined\<close> is read, and the three errors the interpreter throws
  itself.
\<close>

datatype interp_error =
    TypeError
  | UnexpectedOperationType
  | UnknownOperationToken
  | UnknownExpressionToken

text \<open>The variable store, a \<open>Map\<close> from identifier values to trees.\<close>

type_synonym store = "tkn_value \<Rightarrow> tree option"

text \<open>\<open>store.get(k) || null\<close>\<close>

definition get_or_nil :: "store \<Rightarrow> tkn_value \<Rightarrow> tree" where
  "get_or_nil s k = (case s k of None \<Rightarrow> Nil | Some t \<Rightarrow> t)"

subsection \<open>Expression evaluation on an explicit stack\<close>

text \<open>
  An argument slot of a frame holds an expression of the program (possibly \<open>null\<close>) or a
  \<open>Literal\<close>. A frame is the root, or a copy made by \<open>_copyExpr\<close>: of an operation (with
  its own argument array), of an identifier, of a tree literal, or the empty object
  that spreading \<open>null\<close> gives. The head of the list is the top of the stack.
\<close>

datatype arg = AExpr "expr option" | ALit tree

datatype frame =
    FRoot "arg list"
  | FOp token "arg list"
  | FIdent token
  | FTree tree
  | FEmpty

fun copyExpr :: "expr option \<Rightarrow> frame" where
  "copyExpr None = FEmpty"
| "copyExpr (Some (EIdent t)) = FIdent t"
| "copyExpr (Some (ETree t)) = FTree t"
| "copyExpr (Some (EOp c opr args)) = FOp opr (map AExpr args)"

text \<open>
  The scan \<open>for (arg of args) if (arg.type !== 'literal')\<close>: the first slot that is not a
  literal, replaced by \<open>f\<close> of its expression; reading \<open>type\<close> of a \<open>null\<close> slot throws.
  \<open>None\<close> when every slot is a literal.
\<close>

fun first_non_literal :: "arg list \<Rightarrow> (interp_error + expr) option" where
  "first_non_literal [] = None"
| "first_non_literal (ALit t # as) = first_non_literal as"
| "first_non_literal (AExpr None # as) = Some (Inl TypeError)"
| "first_non_literal (AExpr (Some e) # as) = Some (Inr e)"

fun replace_first :: "tree \<Rightarrow> arg list \<Rightarrow> interp_error + arg list" where
  "replace_first v [] = Inr []"
| "replace_first v (ALit t # as) =
     (case replace_first v as of Inl e \<Rightarrow> Inl e | Inr as' \<Rightarrow> Inr (ALit t # as'))"
| "replace_first v (AExpr None # as) = Inl TypeError"
| "replace_first v (AExpr (Some e) # as) = Inr (ALit v # as)"

text \<open>
  \<open>_replaceArgWithLiteral\<close>: pop the parent, overwrite its first non-literal slot, push
  it back. A parent without an argument array makes \<open>par.args.length\<close> throw.
\<close>

fun replaceArgWithLiteral :: "tree \<Rightarrow> frame list \<Rightarrow> interp_error + frame list" where
  "replaceArgWithLiteral v [] = Inl TypeError"
| "replaceArgWithLiteral v (FRoot as # stack) =
     (case replace_first v as of Inl e \<Rightarrow> Inl e | Inr as' \<Rightarrow> Inr (FRoot as' # stack))"
| "replaceArgWithLiteral v (FOp opr as # stack) =
     (case replace_first v as of Inl e \<Rightarrow> Inl e | Inr as' \<Rightarrow> Inr (FOp opr as' # stack))"
| "replaceArgWithLiteral v (f # stack) = Inl TypeError"

text \<open>
  The operation itself, once every slot is a literal: \<open>args[0].tree\<close> and \<open>args[1].tree\<close>
  throw when the slot does not exist.
\<close>

fun lit_tree :: "arg \<Rightarrow> tree" where
  "lit_tree (ALit t) = t"
| "lit_tree (AExpr e) = Nil"

fun tree_left :: "tree \<Rightarrow> tree" where
  "tree_left Nil = Nil"
| "tree_left (Node l r) = l"

fun tree_right :: "tree \<Rightarrow> tree" where
  "tree_right Nil = Nil"
| "tree_right (Node l r) = r"

definition apply_op :: "token \<Rightarrow> tree list \<Rightarrow> interp_error + tree" where
  "apply_op opr vs =
     (if tvalue opr = Str ''cons'' then
        (case vs of l # r # rest \<Rightarrow> Inr (Node l r) | _ \<Rightarrow> Inl TypeError)
      else if tvalue opr = Str ''hd'' then
        (case vs of t # rest \<Rightarrow> Inr (tree_left t) | _ \<Rightarrow> Inl TypeError)
      else if tvalue opr = Str ''tl'' then
        (case vs of t # rest \<Rightarrow> Inr (tree_right t) | _ \<Rightarrow> Inl TypeError)
      else Inl UnknownOperationToken)"

text \<open>
  One turn of the loop \<open>while (exprStack.length > 1)\<close>, on the popped frame. A frame that
  is neither an operation nor an identifier throws \<open>Unknown expression token\<close>; the
  message reads \<open>expr.type\<close> of the expression under evaluation, which throws a
  \<open>TypeError\<close> instead when that expression is \<open>null\<close>, the only way to an empty frame.
\<close>

fun eval_frame :: "store \<Rightarrow> frame \<Rightarrow> frame list \<Rightarrow> interp_error + frame list" where
  "eval_frame s (FOp opr as) stack =
     (case first_non_literal as of
        Some (Inl e) \<Rightarrow> Inl e
      | Some (Inr a) \<Rightarrow> Inr (copyExpr (Some a) # FOp opr as # stack)
      | None \<Rightarrow>
          (case apply_op opr (map lit_tree as) of
             Inl e \<Rightarrow> Inl e
           | Inr v \<Rightarrow> replaceArgWithLiteral v stack))"
| "eval_frame s (FIdent t) stack =
     (if tvalue t = Str ''nil'' then replaceArgWithLiteral Nil stack
      else replaceArgWithLiteral (get_or_nil s (tvalue t)) stack)"
| "eval_frame s FEmpty stack = Inl TypeError"
| "eval_frame s f stack = Inl UnknownExpressionToken"


text \<open>
  The loop terminates: every turn either starts on a sub-expression or fills a slot of the
  frame below. The weight of a stack counts twice the nodes of the expressions not yet
  started, and one for every frame under evaluation.
\<close>

fun esize :: "expr \<Rightarrow> nat" where
  "esize (EIdent t) = 1"
| "esize (ETree t) = 1"
| "esize (EOp c opr args) = Suc (sum_list (map (\<lambda>a. case a of None \<Rightarrow> 1 | Some e \<Rightarrow> esize e) args))"

fun osize :: "expr option \<Rightarrow> nat" where
  "osize None = 1"
| "osize (Some e) = esize e"

fun arg_weight :: "arg \<Rightarrow> nat" where
  "arg_weight (ALit t) = 0"
| "arg_weight (AExpr e) = 2 * osize e"

fun frame_weight :: "frame \<Rightarrow> nat" where
  "frame_weight (FRoot as) = sum_list (map arg_weight as)"
| "frame_weight (FOp opr as) = Suc (sum_list (map arg_weight as))"
| "frame_weight f = 1"

fun pending_weight :: "arg list \<Rightarrow> nat" where
  "pending_weight [] = 0"
| "pending_weight (ALit t # as) = pending_weight as"
| "pending_weight (AExpr e # as) = sum_list (map arg_weight as)"

fun waiting_weight :: "frame \<Rightarrow> nat" where
  "waiting_weight (FRoot as) = pending_weight as"
| "waiting_weight (FOp opr as) = Suc (pending_weight as)"
| "waiting_weight f = 1"

fun stack_weight :: "frame list \<Rightarrow> nat" where
  "stack_weight [] = 0"
| "stack_weight (f # stack) = frame_weight f + sum_list (map waiting_weight stack)"

lemma osize_pos: "0 < osize e"
  by (cases e; simp) (rename_tac x, case_tac x; simp)

lemma esize_EOp: "esize (EOp c opr args) = Suc (sum_list (map osize args))"
proof -
  have "osize = case_option (Suc 0) esize"
    by (rule ext) (simp split: option.splits)
  then show ?thesis by simp
qed

lemma frame_weight_copyExpr: "Suc (frame_weight (copyExpr e)) = 2 * osize e"
proof (cases e)
  case None then show ?thesis by simp
next
  case (Some x)
  then show ?thesis
    by (cases x) (simp_all add: esize_EOp comp_def sum_list_const_mult del: esize.simps(3))
qed

lemma first_non_literal_weight:
  "first_non_literal as = Some (Inr e) \<Longrightarrow>
   sum_list (map arg_weight as) = 2 * esize e + pending_weight as"
  by (induction as rule: first_non_literal.induct) auto

lemma replace_first_weight:
  "replace_first v as = Inr as' \<Longrightarrow> sum_list (map arg_weight as') = pending_weight as"
  by (induction v as arbitrary: as' rule: replace_first.induct) (auto split: sum.splits)

lemma replaceArg_weight:
  "replaceArgWithLiteral v stack = Inr stack' \<Longrightarrow>
   stack_weight stack' = sum_list (map waiting_weight stack)"
  by (induction v stack rule: replaceArgWithLiteral.induct)
     (auto split: sum.splits dest: replace_first_weight)

lemma eval_frame_weight:
  "eval_frame s f stack = Inr stack' \<Longrightarrow> stack_weight stack' < stack_weight (f # stack)"
proof (cases f)
  case (FOp opr as)
  assume a: "eval_frame s f stack = Inr stack'"
  show ?thesis
  proof (cases "first_non_literal as")
    case None
    with a FOp show ?thesis by (auto split: sum.splits dest: replaceArg_weight)
  next
    case (Some r)
    show ?thesis
    proof (cases r)
      case (Inl e) with a FOp Some show ?thesis by simp
    next
      case (Inr e)
      with a FOp Some have "stack' = copyExpr (Some e) # FOp opr as # stack" by simp
      moreover from Inr Some have "sum_list (map arg_weight as) = 2 * esize e + pending_weight as"
        by (simp add: first_non_literal_weight)
      moreover have "Suc (frame_weight (copyExpr (Some e))) = 2 * esize e"
        using frame_weight_copyExpr[of "Some e"] by simp
      ultimately show ?thesis using FOp by simp
    qed
  qed
next
  case (FIdent t)
  assume "eval_frame s f stack = Inr stack'"
  with FIdent show ?thesis by (auto split: if_splits dest: replaceArg_weight)
qed simp_all

function eval_loop :: "store \<Rightarrow> frame list \<Rightarrow> interp_error + frame list" where
  "eval_loop s stack =
     (if length stack > 1 then
        (case eval_frame s (hd stack) (tl stack) of
           Inl e \<Rightarrow> Inl e
         | Inr stack' \<Rightarrow> eval_loop s stack')
      else Inr stack)"
  by pat_completeness auto
termination
proof (relation "measure (\<lambda>(s, stack). stack_weight stack)", goal_cases)
  case 1 show ?case by simp
next
  case (2 s stack x2)
  then obtain f rest where "stack = f # rest" by (cases stack) auto
  with 2 show ?case using eval_frame_weight[of s f rest x2] by simp
qed


declare eval_loop.simps [simp del]

text \<open>
  \<open>_evalExpr\<close>: the root frame holds the expression as its only slot; the loop runs until
  only the root is left, and the root's slot is the result. The slot is a literal by then
  (\<open>evalExpr_deval\<close> below), so the last case is never taken.
\<close>

definition evalExpr :: "store \<Rightarrow> expr option \<Rightarrow> interp_error + tree" where
  "evalExpr s expr =
     (case eval_loop s [copyExpr expr, FRoot [AExpr expr]] of
        Inl e \<Rightarrow> Inl e
      | Inr stack \<Rightarrow>
          (case stack of
             FRoot (ALit t # as) # rest \<Rightarrow> Inr t
           | _ \<Rightarrow> Inl TypeError))"


subsection \<open>The recursive reading of expression evaluation\<close>

text \<open>
  What the stack computes, written as the recursion the interpreter avoids: arguments
  are evaluated from left to right, the first exception wins, and the operation is applied
  to the values. \<open>evalExpr_deval\<close> proves that the stack machine computes exactly this.
\<close>

fun deval :: "store \<Rightarrow> expr \<Rightarrow> interp_error + tree"
  and deval_args :: "store \<Rightarrow> expr option list \<Rightarrow> interp_error + tree list" where
  "deval s (EIdent t) = Inr (if tvalue t = Str ''nil'' then Nil else get_or_nil s (tvalue t))"
| "deval s (ETree t) = Inl UnknownExpressionToken"
| "deval s (EOp c opr args) =
     (case deval_args s args of Inl x \<Rightarrow> Inl x | Inr vs \<Rightarrow> apply_op opr vs)"
| "deval_args s [] = Inr []"
| "deval_args s (None # as) = Inl TypeError"
| "deval_args s (Some e # as) =
     (case deval s e of
        Inl x \<Rightarrow> Inl x
      | Inr v \<Rightarrow> (case deval_args s as of Inl x \<Rightarrow> Inl x | Inr vs \<Rightarrow> Inr (v # vs)))"

definition resume :: "store \<Rightarrow> interp_error + tree \<Rightarrow> frame list \<Rightarrow> interp_error + frame list" where
  "resume s r stack =
     (case r of
        Inl x \<Rightarrow> Inl x
      | Inr v \<Rightarrow>
          (case replaceArgWithLiteral v stack of
             Inl x \<Rightarrow> Inl x
           | Inr stack' \<Rightarrow> eval_loop s stack'))"

lemma first_non_literal_lits [simp]:
  "first_non_literal (map ALit vs @ as) = first_non_literal as"
  by (induction vs) auto

lemma replace_first_lits [simp]:
  "replace_first v (map ALit vs @ AExpr (Some e) # as) = Inr (map ALit (vs @ [v]) @ as)"
  by (induction vs) auto

lemma map_lit_tree [simp]: "map (lit_tree \<circ> ALit) vs = vs"
  by (induction vs) auto

lemma first_non_literal_all_lits [simp]: "first_non_literal (map ALit vs) = None"
  by (induction vs) auto

lemma eval_loop_step:
  "stack \<noteq> [] \<Longrightarrow> eval_loop s (f # stack) =
     (case eval_frame s f stack of Inl e \<Rightarrow> Inl e | Inr stack' \<Rightarrow> eval_loop s stack')"
  by (subst eval_loop.simps) (cases stack; simp)

lemma eval_loop_deval:
  "\<forall>stack. stack \<noteq> [] \<longrightarrow> eval_loop s (copyExpr (Some e) # stack) = resume s (deval s e) stack"
  "\<forall>vs opr stack. stack \<noteq> [] \<longrightarrow>
     eval_loop s (FOp opr (map ALit vs @ map AExpr es) # stack) =
       (case deval_args s es of
          Inl x \<Rightarrow> Inl x
        | Inr ws \<Rightarrow> resume s (apply_op opr (vs @ ws)) stack)"
proof (induction s e and s es rule: deval_deval_args.induct)
  case (1 s t)
  show ?case by (auto simp: eval_loop_step resume_def split: sum.splits)
next
  case (2 s t)
  show ?case by (simp add: eval_loop_step resume_def)
next
  case (3 s c opr args)
  from 3 have "\<forall>stack. stack \<noteq> [] \<longrightarrow>
     eval_loop s (FOp opr (map ALit [] @ map AExpr args) # stack) =
       (case deval_args s args of
          Inl x \<Rightarrow> Inl x
        | Inr ws \<Rightarrow> resume s (apply_op opr ([] @ ws)) stack)" by blast
  then show ?case by (simp add: resume_def split: sum.splits)
next
  case (4 s)
  show ?case by (simp add: eval_loop_step resume_def split: sum.splits)
next
  case (5 s as)
  show ?case by (simp add: eval_loop_step)
next
  case (6 s e as)
  show ?case
  proof (intro allI impI)
    fix vs opr and stack :: "frame list"
    assume ne: "stack \<noteq> []"
    let ?par = "FOp opr (map ALit vs @ map AExpr (Some e # as))"
    have "eval_loop s (?par # stack) = eval_loop s (copyExpr (Some e) # ?par # stack)"
      using ne by (simp add: eval_loop_step)
    also have "\<dots> = resume s (deval s e) (?par # stack)"
      using 6(1) by simp
    finally have step: "eval_loop s (?par # stack) = resume s (deval s e) (?par # stack)" .
    show "eval_loop s (?par # stack) =
       (case deval_args s (Some e # as) of
          Inl x \<Rightarrow> Inl x
        | Inr ws \<Rightarrow> resume s (apply_op opr (vs @ ws)) stack)"
    proof (cases "deval s e")
      case (Inl x)
      then show ?thesis using step by (simp add: resume_def)
    next
      case (Inr v)
      have "eval_loop s (?par # stack) = eval_loop s (FOp opr (map ALit (vs @ [v]) @ map AExpr as) # stack)"
        using step Inr by (simp add: resume_def)
      also have "\<dots> = (case deval_args s as of
          Inl x \<Rightarrow> Inl x
        | Inr ws \<Rightarrow> resume s (apply_op opr ((vs @ [v]) @ ws)) stack)"
        using 6(2)[OF Inr] ne by blast
      finally show ?thesis using Inr by (simp split: sum.splits)
    qed
  qed
qed

lemma evalExpr_deval: "evalExpr s (Some e) = deval s e"
proof -
  have "eval_loop s [copyExpr (Some e), FRoot [AExpr (Some e)]] =
        resume s (deval s e) [FRoot [AExpr (Some e)]]"
    using eval_loop_deval(1)[of s e] by simp
  then show ?thesis
    by (cases "deval s e") (simp_all add: evalExpr_def resume_def eval_loop.simps)
qed

lemma evalExpr_None: "evalExpr s None = Inl TypeError"
  by (simp add: evalExpr_def eval_loop.simps)


subsection \<open>Commands\<close>

text \<open>
  A frame of the command stack is a command of the program (a \<open>null\<close> statement slot
  included) or a \<open>block\<close> made by \<open>run\<close>, whose body is a fresh copy (\<open>[...body]\<close>) that
  \<open>shift\<close> consumes.
\<close>

datatype cframe = CCmd "cmd option" | CBlock "cmd option list"

fun exec_op :: "store \<Rightarrow> cframe \<Rightarrow> cframe list \<Rightarrow> interp_error + (cframe list \<times> store)" where
  "exec_op s (CCmd None) stack = Inl TypeError"
| "exec_op s (CCmd (Some (Assign c ident arg))) stack =
     (case evalExpr s arg of
        Inl e \<Rightarrow> Inl e
      | Inr val \<Rightarrow> Inr (stack, s(tvalue ident \<mapsto> val)))"
| "exec_op s (CCmd (Some (Cond c cond ifb elseb))) stack =
     (case evalExpr s cond of
        Inl e \<Rightarrow> Inl e
      | Inr v \<Rightarrow> if v \<noteq> Nil then Inr (CBlock ifb # stack, s) else Inr (CBlock elseb # stack, s))"
| "exec_op s (CCmd (Some (Loop c cond body))) stack =
     (case evalExpr s cond of
        Inl e \<Rightarrow> Inl e
      | Inr v \<Rightarrow>
          if v \<noteq> Nil then Inr (CBlock body # CCmd (Some (Loop c cond body)) # stack, s)
          else Inr (stack, s))"
| "exec_op s (CCmd (Some (Switch c cond cases dflt))) stack = Inl UnexpectedOperationType"
| "exec_op s (CBlock []) stack = Inr (stack, s)"
| "exec_op s (CBlock (first # rest)) stack =
     Inr (CCmd first # (if rest \<noteq> [] then [CBlock rest] else []) @ stack, s)"

text \<open>
  The loop \<open>while (commandStack.length > 0)\<close> may run forever: \<open>None\<close> is the run that
  never returns, \<open>Some (Inl e)\<close> the run that throws, \<open>Some (Inr s)\<close> the store at the end.
\<close>

partial_function (option) run_loop :: "cframe list \<Rightarrow> store \<Rightarrow> (interp_error + store) option" where
  "run_loop stack s =
     (case stack of
        [] \<Rightarrow> Some (Inr s)
      | op # rest \<Rightarrow>
          (case exec_op s op rest of
             Inl e \<Rightarrow> Some (Inl e)
           | Inr (stack', s') \<Rightarrow> run_loop stack' s'))"

text \<open>
  The interpreter object. The constructor makes the store and binds the input variable;
  \<open>run\<close> works on the store of the object and leaves it there.
\<close>

record interpreter =
  i_program :: prog
  i_input :: tree
  i_store :: store

definition Interpreter :: "prog \<Rightarrow> tree \<Rightarrow> interp_error + interpreter" where
  "Interpreter ast inp =
     (case prog_input ast of
        None \<Rightarrow> Inl TypeError
      | Some iv \<Rightarrow> Inr \<lparr>i_program = ast, i_input = inp, i_store = Map.empty(tvalue iv \<mapsto> inp)\<rparr>)"

definition run :: "interpreter \<Rightarrow> (interp_error + tree \<times> interpreter) option" where
  "run I =
     (case run_loop [CBlock (prog_body (i_program I))] (i_store I) of
        None \<Rightarrow> None
      | Some (Inl e) \<Rightarrow> Some (Inl e)
      | Some (Inr s') \<Rightarrow>
          (case prog_output (i_program I) of
             None \<Rightarrow> Some (Inl TypeError)
           | Some out \<Rightarrow> Some (Inr (get_or_nil s' (tvalue out), I\<lparr>i_store := s'\<rparr>))))"


section \<open>Properties of the interpreter\<close>

text \<open>
  Claim C3. Expression evaluation satisfies the semantic equations: for expressions
  evaluating to the trees \<open>a\<close> and \<open>b\<close>, \<open>hd (cons a b)\<close> evaluates to \<open>a\<close> and
  \<open>tl (cons a b)\<close> to \<open>b\<close>; \<open>hd nil\<close> and \<open>tl nil\<close> evaluate to \<open>nil\<close>; and \<open>hd\<close> or \<open>tl\<close>
  of any expression that evaluates to \<open>nil\<close> returns \<open>nil\<close>, it never throws.
\<close>

theorem semantic_equations:
  assumes "evalExpr s (Some ea) = Inr a" and "evalExpr s (Some eb) = Inr b"
    and "evalExpr s (Some en) = Inr Nil"
    and "tvalue hdT = Str ''hd''" and "tvalue tlT = Str ''tl''"
    and "tvalue consT = Str ''cons''" and "tvalue nilT = Str ''nil''"
  shows "evalExpr s (Some (EOp c1 hdT [Some (EOp c2 consT [Some ea, Some eb])])) = Inr a
       \<and> evalExpr s (Some (EOp c1 tlT [Some (EOp c2 consT [Some ea, Some eb])])) = Inr b
       \<and> evalExpr s (Some (EOp c1 hdT [Some (EIdent nilT)])) = Inr Nil
       \<and> evalExpr s (Some (EOp c1 tlT [Some (EIdent nilT)])) = Inr Nil
       \<and> evalExpr s (Some (EOp c1 hdT [Some en])) = Inr Nil
       \<and> evalExpr s (Some (EOp c1 tlT [Some en])) = Inr Nil"
  using assms by (simp add: evalExpr_deval apply_op_def)

theorem semantic_equations_witness:
  "evalExpr (Map.empty(Str ''X'' \<mapsto> Node Nil Nil))
     (Some (EOp True \<lparr>ttype = Operation, tvalue = Str ''hd'', tpos = \<lparr>row = 0, col = 0\<rparr>\<rparr>
        [Some (EOp True \<lparr>ttype = Operation, tvalue = Str ''cons'', tpos = \<lparr>row = 0, col = 3\<rparr>\<rparr>
           [Some (EIdent \<lparr>ttype = Identifier, tvalue = Str ''X'', tpos = \<lparr>row = 0, col = 8\<rparr>\<rparr>),
            Some (EIdent \<lparr>ttype = Identifier, tvalue = Str ''Y'', tpos = \<lparr>row = 0, col = 10\<rparr>\<rparr>)])]))
     = Inr (Node Nil Nil)
   \<and> evalExpr (Map.empty(Str ''X'' \<mapsto> Node Nil Nil))
     (Some (EOp True \<lparr>ttype = Operation, tvalue = Str ''tl'', tpos = \<lparr>row = 0, col = 0\<rparr>\<rparr>
        [Some (EIdent \<lparr>ttype = Identifier, tvalue = Str ''Y'', tpos = \<lparr>row = 0, col = 10\<rparr>\<rparr>)]))
     = Inr Nil"
proof -
  let ?s = "Map.empty(Str ''X'' \<mapsto> Node Nil Nil)"
  let ?X = "EIdent \<lparr>ttype = Identifier, tvalue = Str ''X'', tpos = \<lparr>row = 0, col = 8\<rparr>\<rparr>"
  let ?Y = "EIdent \<lparr>ttype = Identifier, tvalue = Str ''Y'', tpos = \<lparr>row = 0, col = 10\<rparr>\<rparr>"
  have a: "evalExpr ?s (Some ?X) = Inr (Node Nil Nil)"
    by (simp add: evalExpr_deval get_or_nil_def)
  have b: "evalExpr ?s (Some ?Y) = Inr Nil"
    by (simp add: evalExpr_deval get_or_nil_def)
  show ?thesis
    using semantic_equations[OF a b b,
        of "\<lparr>ttype = Operation, tvalue = Str ''hd'', tpos = \<lparr>row = 0, col = 0\<rparr>\<rparr>"
           "\<lparr>ttype = Operation, tvalue = Str ''tl'', tpos = \<lparr>row = 0, col = 0\<rparr>\<rparr>"
           "\<lparr>ttype = Operation, tvalue = Str ''cons'', tpos = \<lparr>row = 0, col = 3\<rparr>\<rparr>"
           "\<lparr>ttype = Identifier, tvalue = Str ''nil'', tpos = \<lparr>row = 0, col = 0\<rparr>\<rparr>"
           True True]
    by simp
qed


subsection \<open>The store during a run\<close>

text \<open>
  The only write to the store is \<open>this._store.set(op.ident.value, val)\<close>, when an
  assignment is taken from the command stack: \<open>written op\<close> is the identifier that
  executing \<open>op\<close> binds. \<open>runs_to c A c'\<close>: the loop of \<open>run\<close>, started on the
  configuration \<open>c\<close> (command stack and store), is at \<open>c'\<close> after some number of
  turns, and \<open>A\<close> holds the identifiers of the assignments executed in these turns.
\<close>

fun written :: "cframe \<Rightarrow> tkn_value set" where
  "written (CCmd (Some (Assign c ident arg))) = {tvalue ident}"
| "written f = {}"

inductive runs_to :: "cframe list \<times> store \<Rightarrow> tkn_value set \<Rightarrow> cframe list \<times> store \<Rightarrow> bool" where
  start: "runs_to c {} c"
| step: "runs_to c A (op # rest, s) \<Longrightarrow> exec_op s op rest = Inr (stack', s') \<Longrightarrow>
         runs_to c (A \<union> written op) (stack', s')"

lemma exec_op_written:
  assumes "exec_op s op rest = Inr (stack', s')" and "k \<notin> written op"
  shows "s' k = s k"
  using assms
  by (induction s op rest rule: exec_op.induct)
     (auto split: sum.splits if_splits)

lemma runs_to_unwritten:
  assumes "runs_to c0 A c"
  shows "\<forall>k. k \<notin> A \<longrightarrow> snd c k = snd c0 k"
  using assms
proof (induction rule: runs_to.induct)
  case (start c)
  show ?case by simp
next
  case (step c A op rest s stack' s')
  show ?case
  proof (intro allI impI)
    fix k assume "k \<notin> A \<union> written op"
    then have "k \<notin> A" "k \<notin> written op" by simp_all
    with exec_op_written[OF step(2)] step(3) show "snd (stack', s') k = snd c k" by simp
  qed
qed

lemma run_loop_runs_to_aux:
  assumes "run_loop stack s = Some r"
  shows "\<forall>c0 A s'. runs_to c0 A (stack, s) \<longrightarrow> r = Inr s' \<longrightarrow> (\<exists>A'. runs_to c0 A' ([], s'))"
proof (rule run_loop.raw_induct[where P="\<lambda>stack s r.
          \<forall>c0 A s'. runs_to c0 A (stack, s) \<longrightarrow> r = Inr s' \<longrightarrow> (\<exists>A'. runs_to c0 A' ([], s'))",
          OF _ assms],
       goal_cases)
  case (1 run_loop' stack s r)
  show ?case
  proof (intro allI impI)
    fix c0 A s'
    assume r: "runs_to c0 A (stack, s)" and res: "r = Inr s'"
    show "\<exists>A'. runs_to c0 A' ([], s')"
    proof (cases stack)
      case Nil
      with 1(2) res r show ?thesis by auto
    next
      case (Cons op rest)
      show ?thesis
      proof (cases "exec_op s op rest")
        case (Inl e)
        with 1(2) Cons res show ?thesis by simp
      next
        case (Inr p)
        obtain stack' s1 where p: "p = (stack', s1)" by (cases p)
        from 1(2) Cons Inr p have "run_loop' stack' s1 = Some r" by simp
        moreover from r Cons Inr p have "runs_to c0 (A \<union> written op) (stack', s1)"
          by (auto intro: runs_to.step)
        ultimately show ?thesis using 1(1) res by blast
      qed
    qed
  qed
qed

lemma run_loop_runs_to:
  "run_loop stack s = Some (Inr s') \<Longrightarrow> \<exists>A. runs_to (stack, s) A ([], s')"
  using run_loop_runs_to_aux[of stack s "Inr s'"] runs_to.start by blast


text \<open>Tokens as the lexer writes them, and two small programs for the examples.\<close>

definition tok :: "tkn_type \<Rightarrow> string \<Rightarrow> nat \<Rightarrow> nat \<Rightarrow> token" where
  "tok ty v r c = \<lparr>ttype = ty, tvalue = Str v, tpos = \<lparr>row = r, col = c\<rparr>\<rparr>"

lemma tok_sel [simp]:
  "ttype (tok ty v r c) = ty" "tvalue (tok ty v r c) = Str v" "tpos (tok ty v r c) = \<lparr>row = r, col = c\<rparr>"
  by (simp_all add: tok_def)

definition example_prog :: "cmd option list \<Rightarrow> string \<Rightarrow> prog" where
  "example_prog b out =
     \<lparr>prog_complete = True, prog_input = Some (tok Identifier ''X'' 0 7),
      prog_output = Some (tok Identifier out 0 40),
      prog_name = Some (tok Identifier ''p'' 0 0), prog_body = b\<rparr>"

definition grow_Y :: "cmd option" where
  "grow_Y = Some (Assign True (tok Identifier ''Y'' 0 11)
               (Some (EOp True (tok Operation ''cons'' 0 16)
                  [Some (EIdent (tok Identifier ''nil'' 0 21)),
                   Some (EIdent (tok Identifier ''Y'' 0 25))])))"

lemma run_loop_Nil: "run_loop [] s = Some (Inr s)"
  by (simp add: run_loop.simps)

lemma run_loop_Cons:
  "run_loop (op # rest) s =
     (case exec_op s op rest of Inl e \<Rightarrow> Some (Inl e) | Inr (stack', s') \<Rightarrow> run_loop stack' s')"
  by (subst run_loop.simps) simp

lemma run_grow_Y:
  "run_loop [CBlock [grow_Y]] s = Some (Inr (s(Str ''Y'' \<mapsto> Node Nil (get_or_nil s (Str ''Y'')))))"
  by (simp add: run_loop_Cons run_loop_Nil grow_Y_def evalExpr_deval apply_op_def)


text \<open>
  Claim C7. At every configuration a run goes through, an identifier for which no
  assignment has been executed so far, other than the input variable, evaluates to \<open>nil\<close>,
  whether or not the program assigns it later; the reserved name \<open>nil\<close> evaluates to
  \<open>nil\<close>; and an identifier bound in the store, other than \<open>nil\<close>, evaluates to the tree
  it is bound to. The value \<open>run\<close> returns is the binding of the output identifier in the
  store at the end of the run: the tree bound to it when there is one, and \<open>nil\<close> when there
  is none, as when no assignment to the output variable was executed and it is not the input
  variable.
\<close>

theorem unset_variables_are_nil:
  assumes "Interpreter ast inp = Inr I" and "prog_input ast = Some iv"
    and "runs_to ([CBlock (prog_body ast)], i_store I) A (stack, s)"
  shows "(tvalue x \<notin> A \<and> tvalue x \<noteq> tvalue iv \<longrightarrow> evalExpr s (Some (EIdent x)) = Inr Nil)
       \<and> (tvalue x = Str ''nil'' \<longrightarrow> evalExpr s (Some (EIdent x)) = Inr Nil)
       \<and> (tvalue x \<noteq> Str ''nil'' \<longrightarrow> s (tvalue x) = Some t \<longrightarrow>
            evalExpr s (Some (EIdent x)) = Inr t)
       \<and> (run I = Some (Inr (v, I')) \<longrightarrow> prog_output ast = Some out \<longrightarrow>
            (\<exists>A'. runs_to ([CBlock (prog_body ast)], i_store I) A' ([], i_store I')
                  \<and> (tvalue out \<notin> A' \<and> tvalue out \<noteq> tvalue iv \<longrightarrow> v = Nil))
            \<and> (i_store I' (tvalue out) = None \<longrightarrow> v = Nil)
            \<and> (\<forall>t'. i_store I' (tvalue out) = Some t' \<longrightarrow> v = t'))"
proof -
  from assms(1,2) have I: "I = \<lparr>i_program = ast, i_input = inp, i_store = Map.empty(tvalue iv \<mapsto> inp)\<rparr>"
    by (simp add: Interpreter_def)
  have unset: "s' k = None"
    if "runs_to ([CBlock (prog_body ast)], i_store I) B (stk, s')" "k \<notin> B" "k \<noteq> tvalue iv"
    for B stk s' k
    using runs_to_unwritten[OF that(1)] that(2,3) I by simp
  have A: "tvalue x \<notin> A \<and> tvalue x \<noteq> tvalue iv \<longrightarrow> evalExpr s (Some (EIdent x)) = Inr Nil"
    using unset[OF assms(3)] by (auto simp: evalExpr_deval get_or_nil_def)
  have B: "tvalue x = Str ''nil'' \<longrightarrow> evalExpr s (Some (EIdent x)) = Inr Nil"
    by (simp add: evalExpr_deval)
  have C: "tvalue x \<noteq> Str ''nil'' \<longrightarrow> s (tvalue x) = Some t \<longrightarrow>
            evalExpr s (Some (EIdent x)) = Inr t"
    by (simp add: evalExpr_deval get_or_nil_def)
  have D: "(\<exists>A'. runs_to ([CBlock (prog_body ast)], i_store I) A' ([], i_store I')
                  \<and> (tvalue out \<notin> A' \<and> tvalue out \<noteq> tvalue iv \<longrightarrow> v = Nil))
            \<and> (i_store I' (tvalue out) = None \<longrightarrow> v = Nil)
            \<and> (\<forall>t'. i_store I' (tvalue out) = Some t' \<longrightarrow> v = t')"
    if r: "run I = Some (Inr (v, I'))" and o: "prog_output ast = Some out"
  proof -
    from r o I obtain s' where l: "run_loop [CBlock (prog_body ast)] (i_store I) = Some (Inr s')"
      and v: "v = get_or_nil s' (tvalue out)" and I': "I' = I\<lparr>i_store := s'\<rparr>"
      by (auto simp: run_def split: option.splits sum.splits)
    from run_loop_runs_to[OF l] obtain A' where
      A': "runs_to ([CBlock (prog_body ast)], i_store I) A' ([], s')" by blast
    have "tvalue out \<notin> A' \<and> tvalue out \<noteq> tvalue iv \<longrightarrow> v = Nil"
      using unset[OF A'] v by (auto simp: get_or_nil_def)
    with A' v I' show ?thesis by (auto simp: get_or_nil_def)
  qed
  from A B C D show ?thesis by blast
qed

text \<open>
  The program \<open>Y := cons nil Y\<close> on the input \<open>(nil.nil)\<close>: before the assignment is
  executed \<open>Y\<close> evaluates to \<open>nil\<close> and the input variable to the input; with output \<open>Y\<close>
  the run returns the tree bound to \<open>Y\<close>, with output \<open>W\<close>, never set, it returns
  \<open>nil\<close>.
\<close>

theorem unset_variables_are_nil_witness:
  "(\<exists>I I' J J'.
       Interpreter (example_prog [grow_Y] ''Y'') (Node Nil Nil) = Inr I
     \<and> runs_to ([CBlock [grow_Y]], i_store I) {} ([CCmd grow_Y], i_store I)
     \<and> evalExpr (i_store I) (Some (EIdent (tok Identifier ''Y'' 0 25))) = Inr Nil
     \<and> evalExpr (i_store I) (Some (EIdent (tok Identifier ''nil'' 0 21))) = Inr Nil
     \<and> evalExpr (i_store I) (Some (EIdent (tok Identifier ''X'' 0 7))) = Inr (Node Nil Nil)
     \<and> run I = Some (Inr (Node Nil Nil, I'))
     \<and> i_store I' (Str ''Y'') = Some (Node Nil Nil)
     \<and> Interpreter (example_prog [grow_Y] ''W'') (Node Nil Nil) = Inr J
     \<and> run J = Some (Inr (Nil, J'))
     \<and> i_store J' (Str ''W'') = None)"
proof -
  let ?ast = "example_prog [grow_Y] ''Y''"
  let ?s0 = "Map.empty(Str ''X'' \<mapsto> Node Nil Nil)"
  let ?I = "\<lparr>i_program = ?ast, i_input = Node Nil Nil, i_store = ?s0\<rparr>"
  let ?s1 = "?s0(Str ''Y'' \<mapsto> Node Nil Nil)"
  let ?I' = "?I\<lparr>i_store := ?s1\<rparr>"
  let ?astW = "example_prog [grow_Y] ''W''"
  let ?J = "\<lparr>i_program = ?astW, i_input = Node Nil Nil, i_store = ?s0\<rparr>"
  let ?J' = "?J\<lparr>i_store := ?s1\<rparr>"
  have c: "Interpreter ?ast (Node Nil Nil) = Inr ?I"
    by (simp add: Interpreter_def example_prog_def)
  have iv: "prog_input ?ast = Some (tok Identifier ''X'' 0 7)"
    by (simp add: example_prog_def)
  have b: "prog_body ?ast = [grow_Y]" by (simp add: example_prog_def)
  have "runs_to ([CBlock [grow_Y]], ?s0) ({} \<union> written (CBlock [grow_Y])) ([CCmd grow_Y], ?s0)"
    by (rule runs_to.step[OF runs_to.start]) simp
  then have st: "runs_to ([CBlock (prog_body ?ast)], i_store ?I) {} ([CCmd grow_Y], ?s0)"
    by (simp add: b)
  have r: "run ?I = Some (Inr (Node Nil Nil, ?I'))"
    by (simp add: run_def example_prog_def run_grow_Y get_or_nil_def)
  have o: "prog_output ?ast = Some (tok Identifier ''Y'' 0 40)"
    by (simp add: example_prog_def)
  have cW: "Interpreter ?astW (Node Nil Nil) = Inr ?J"
    by (simp add: Interpreter_def example_prog_def)
  have ivW: "prog_input ?astW = Some (tok Identifier ''X'' 0 7)"
    by (simp add: example_prog_def)
  have bW: "prog_body ?astW = [grow_Y]" by (simp add: example_prog_def)
  have stW: "runs_to ([CBlock (prog_body ?astW)], i_store ?J) {} ([CBlock (prog_body ?astW)], i_store ?J)"
    by (rule runs_to.start)
  have rW: "run ?J = Some (Inr (Nil, ?J'))"
    by (simp add: run_def example_prog_def run_grow_Y get_or_nil_def)
  have oW: "prog_output ?astW = Some (tok Identifier ''W'' 0 40)"
    by (simp add: example_prog_def)
  note T = unset_variables_are_nil[OF c iv st]
  from T[of "tok Identifier ''Y'' 0 25"]
  have 1: "evalExpr ?s0 (Some (EIdent (tok Identifier ''Y'' 0 25))) = Inr Nil" by simp
  from T[of "tok Identifier ''nil'' 0 21"]
  have 2: "evalExpr ?s0 (Some (EIdent (tok Identifier ''nil'' 0 21))) = Inr Nil" by simp
  from T[of "tok Identifier ''X'' 0 7" "Node Nil Nil"]
  have 3: "evalExpr ?s0 (Some (EIdent (tok Identifier ''X'' 0 7))) = Inr (Node Nil Nil)" by simp
  have 4: "i_store ?I' (Str ''Y'') = Some (Node Nil Nil)" by simp
  have 5: "i_store ?J' (Str ''W'') = None" by simp
  from unset_variables_are_nil[OF cW ivW stW, of _ _ Nil ?J' "tok Identifier ''W'' 0 40"] rW oW 5
  have 6: "run ?J = Some (Inr (Nil, ?J'))" by simp
  from c st b 1 2 3 r 4 cW 6 5 show ?thesis
    by (intro exI[of _ ?I] exI[of _ ?I'] exI[of _ ?J] exI[of _ ?J']) simp
qed


text \<open>
  Claim C10. The store is bound to the input in the constructor only, and \<open>run\<close> does not
  reset it: when a first call has changed the store, the object keeps the store left by
  that call (nothing else of the object changes), this store is not the fresh one that
  holds only the input binding, and a second call runs the program from it.
\<close>

theorem run_keeps_store:
  assumes "Interpreter ast inp = Inr I" and "run I = Some (Inr (v, I'))"
    and "i_store I' \<noteq> i_store I"
  shows "run_loop [CBlock (prog_body ast)] (i_store I) = Some (Inr (i_store I'))
       \<and> I' = I\<lparr>i_store := i_store I'\<rparr>
       \<and> (\<exists>iv. prog_input ast = Some iv \<and> i_store I = Map.empty(tvalue iv \<mapsto> inp)
                \<and> i_store I' \<noteq> Map.empty(tvalue iv \<mapsto> inp))
       \<and> run I' =
           (case run_loop [CBlock (prog_body ast)] (i_store I') of
              None \<Rightarrow> None
            | Some (Inl e) \<Rightarrow> Some (Inl e)
            | Some (Inr s2) \<Rightarrow>
                (case prog_output ast of
                   None \<Rightarrow> Some (Inl TypeError)
                 | Some out \<Rightarrow> Some (Inr (get_or_nil s2 (tvalue out), I'\<lparr>i_store := s2\<rparr>))))"
proof -
  from assms(1) obtain iv where iv: "prog_input ast = Some iv"
    and I: "I = \<lparr>i_program = ast, i_input = inp, i_store = Map.empty(tvalue iv \<mapsto> inp)\<rparr>"
    by (auto simp: Interpreter_def split: option.splits)
  from assms(2) I obtain s' where l: "run_loop [CBlock (prog_body ast)] (i_store I) = Some (Inr s')"
    and I': "I' = I\<lparr>i_store := s'\<rparr>"
    by (auto simp: run_def split: option.splits sum.splits)
  from I I' have p: "i_program I' = ast" by simp
  show ?thesis using l I' iv I assms(3) p
    by (auto simp: run_def split: option.splits sum.splits)
qed


theorem run_keeps_store_witness:
  "(\<exists>I I' I''. Interpreter (example_prog [grow_Y] ''Y'') Nil = Inr I
     \<and> run I = Some (Inr (Node Nil Nil, I'))
     \<and> i_store I' \<noteq> i_store I
     \<and> run I' = Some (Inr (Node Nil (Node Nil Nil), I'')))"
proof -
  let ?ast = "example_prog [grow_Y] ''Y''"
  let ?I = "\<lparr>i_program = ?ast, i_input = Nil, i_store = Map.empty(Str ''X'' \<mapsto> Nil)\<rparr>"
  let ?s1 = "(Map.empty(Str ''X'' \<mapsto> Nil))(Str ''Y'' \<mapsto> Node Nil Nil)"
  let ?I' = "?I\<lparr>i_store := ?s1\<rparr>"
  have c: "Interpreter ?ast Nil = Inr ?I"
    by (simp add: Interpreter_def example_prog_def)
  have r: "run ?I = Some (Inr (Node Nil Nil, ?I'))"
    by (simp add: run_def example_prog_def run_grow_Y get_or_nil_def)
  have d: "i_store ?I' \<noteq> i_store ?I"
    by (simp add: fun_eq_iff)
  from run_keeps_store[OF c r d]
  have "run ?I' =
           (case run_loop [CBlock (prog_body ?ast)] (i_store ?I') of
              None \<Rightarrow> None
            | Some (Inl e) \<Rightarrow> Some (Inl e)
            | Some (Inr s2) \<Rightarrow>
                (case prog_output ?ast of
                   None \<Rightarrow> Some (Inl TypeError)
                 | Some out \<Rightarrow> Some (Inr (get_or_nil s2 (tvalue out), ?I'\<lparr>i_store := s2\<rparr>))))"
    by blast
  then have "run ?I' = Some (Inr (Node Nil (Node Nil Nil),
      ?I'\<lparr>i_store := ?s1(Str ''Y'' \<mapsto> Node Nil (Node Nil Nil))\<rparr>))"
    by (simp add: example_prog_def run_grow_Y get_or_nil_def)
  with c r d show ?thesis by blast
qed



section \<open>Programs as data\<close>

text \<open>
  The PAD value of a program, \<open>[input, body, output]\<close>, as the tests of
  \<open>tools/progAsData\<close> write it: commands \<open>[':=', v, e]\<close>, \<open>['if', c, t, e]\<close>,
  \<open>['while', c, b]\<close> and expressions \<open>['var', v]\<close>, \<open>['quote', 'nil']\<close>, \<open>['hd', e]\<close>,
  \<open>['tl', e]\<close>, \<open>['cons', l, r]\<close>.
\<close>

datatype pad_expr =
    PVar nat
  | PQuoteNil
  | PHd pad_expr
  | PTl pad_expr
  | PCons pad_expr pad_expr

datatype pad_cmd =
    PAssign nat pad_expr
  | PIf pad_expr "pad_cmd list" "pad_cmd list"
  | PWhile pad_expr "pad_cmd list"

type_synonym ProgDataType = "nat \<times> pad_cmd list \<times> nat"


text \<open>
  Modelled from the spec: \<open>displayPad\<close> and the two display formats of
  \<open>tools/progAsData\<close> are not part of the sources at hand; only their tests are. Section
  4.7: a PAD value is rendered as bracketed, comma-separated tokens; the format's
  \<open>token_prefix\<close> (\<open>@\<close> for HWHILE, empty for PURE) goes before the symbolic tokens,
  never before numbers or \<open>nil\<close>; lists in block positions are rendered on several lines
  with four spaces of indentation for each level of nesting, lists in expression positions
  inline. The specification does not say how an empty block is rendered; it is taken to be
  \<open>[]\<close>, and claim C9 does not depend on it.
\<close>

record display_format =
  token_prefix :: string

definition HWHILE_DISPLAY_FORMAT :: display_format where
  "HWHILE_DISPLAY_FORMAT = \<lparr>token_prefix = ''@''\<rparr>"

definition PURE_DISPLAY_FORMAT :: display_format where
  "PURE_DISPLAY_FORMAT = \<lparr>token_prefix = ''''\<rparr>"

definition nl :: string where "nl = [CHR 0x0A]"

definition indent :: "nat \<Rightarrow> string" where
  "indent n = concat (replicate n ''    '')"

fun display_expr :: "display_format \<Rightarrow> pad_expr \<Rightarrow> string" where
  "display_expr f (PVar n) = ''['' @ token_prefix f @ ''var, '' @ string_of_nat n @ '']''"
| "display_expr f PQuoteNil = ''['' @ token_prefix f @ ''quote, nil]''"
| "display_expr f (PHd e) = ''['' @ token_prefix f @ ''hd, '' @ display_expr f e @ '']''"
| "display_expr f (PTl e) = ''['' @ token_prefix f @ ''tl, '' @ display_expr f e @ '']''"
| "display_expr f (PCons l r) =
     ''['' @ token_prefix f @ ''cons, '' @ display_expr f l @ '', '' @ display_expr f r @ '']''"

fun display_cmd :: "display_format \<Rightarrow> nat \<Rightarrow> pad_cmd \<Rightarrow> string"
  and display_block :: "display_format \<Rightarrow> nat \<Rightarrow> pad_cmd list \<Rightarrow> string"
  and display_lines :: "display_format \<Rightarrow> nat \<Rightarrow> pad_cmd list \<Rightarrow> string" where
  "display_cmd f n (PAssign v e) =
     ''['' @ token_prefix f @ '':=, '' @ string_of_nat v @ '', '' @ display_expr f e @ '']''"
| "display_cmd f n (PIf c t e) =
     ''['' @ token_prefix f @ ''if, '' @ display_expr f c @ '', '' @ display_block f n t
       @ '', '' @ display_block f n e @ '']''"
| "display_cmd f n (PWhile c b) =
     ''['' @ token_prefix f @ ''while, '' @ display_expr f c @ '', '' @ display_block f n b @ '']''"
| "display_block f n [] = ''[]''"
| "display_block f n (c # cs) = ''['' @ nl @ display_lines f (Suc n) (c # cs) @ indent n @ '']''"
| "display_lines f n [] = []"
| "display_lines f n [c] = indent n @ display_cmd f n c @ nl"
| "display_lines f n (c # d # cs) =
     indent n @ display_cmd f n c @ '','' @ nl @ display_lines f n (d # cs)"

definition display_pad :: "ProgDataType \<Rightarrow> display_format \<Rightarrow> string" where
  "display_pad p f =
     (case p of (i, b, out) \<Rightarrow>
        ''['' @ string_of_nat i @ '', '' @ display_block f 0 b @ '', '' @ string_of_nat out
          @ '']'' @ nl)"

lemma string_of_digit [simp]:
  "string_of_nat 0 = ''0''" "string_of_nat (Suc 0) = ''1''" "string_of_nat 2 = ''2''"
  "string_of_nat 3 = ''3''"
  by code_simp+


text \<open>
  Claim C9. \<open>display_pad\<close> of the PAD value \<open>[0, [[':=', 1, ['quote','nil']]], 1]\<close> in the
  HWHILE format is exactly the three lines \<open>[0, [\<close>, then \<open>[@:=, 1, [@quote, nil]]\<close>
  indented by four spaces, then \<open>], 1]\<close>, each ended by a newline.
\<close>

theorem display_pad_example:
  "display_pad (0, [PAssign 1 PQuoteNil], 1) HWHILE_DISPLAY_FORMAT =
     ''[0, ['' @ [CHR 0x0A] @ ''    [@:=, 1, [@quote, nil]]'' @ [CHR 0x0A] @ ''], 1]'' @ [CHR 0x0A]"
  by (simp add: display_pad_def HWHILE_DISPLAY_FORMAT_def nl_def indent_def)


text \<open>Two more of the display tests, one in each format.\<close>

lemma display_pad_operations:
  "display_pad (0, [PAssign 1 (PHd (PVar 0)), PAssign 2 (PTl (PVar 0)),
                    PAssign 3 (PCons (PVar 1) (PVar 2))], 3) HWHILE_DISPLAY_FORMAT =
     ''[0, ['' @ nl
     @ ''    [@:=, 1, [@hd, [@var, 0]]],'' @ nl
     @ ''    [@:=, 2, [@tl, [@var, 0]]],'' @ nl
     @ ''    [@:=, 3, [@cons, [@var, 1], [@var, 2]]]'' @ nl
     @ ''], 3]'' @ nl"
  by (simp add: display_pad_def HWHILE_DISPLAY_FORMAT_def nl_def indent_def)

lemma display_pad_pure:
  "display_pad (0, [PIf (PVar 0)
        [PWhile (PVar 0) [PAssign 1 (PCons (PHd (PVar 0)) (PTl (PVar 0))), PAssign 0 (PTl (PVar 0))]]
        [PAssign 1 PQuoteNil]], 1) PURE_DISPLAY_FORMAT =
     ''[0, ['' @ nl
     @ ''    [if, [var, 0], ['' @ nl
     @ ''        [while, [var, 0], ['' @ nl
     @ ''            [:=, 1, [cons, [hd, [var, 0]], [tl, [var, 0]]]],'' @ nl
     @ ''            [:=, 0, [tl, [var, 0]]]'' @ nl
     @ ''        ]]'' @ nl
     @ ''    ], ['' @ nl
     @ ''        [:=, 1, [quote, nil]]'' @ nl
     @ ''    ]]'' @ nl
     @ ''], 1]'' @ nl"
  by (simp add: display_pad_def PURE_DISPLAY_FORMAT_def nl_def indent_def)



section \<open>The addition program, from tokens to result\<close>

text \<open>
  The tokens of \<open>add read XY { X := hd XY; Y := tl XY; while X { Y := cons nil Y; X := tl X } }
  write Y\<close> on one line, with the positions a lexer gives them, and the program the parser
  makes of them.
\<close>

definition add_tokens :: "token list" where
  "add_tokens =
    [tok Identifier ''add'' 0 0,
     tok Expression ''read'' 0 4,
     tok Identifier ''XY'' 0 9,
     tok Symbol ''{'' 0 12,
     tok Identifier ''X'' 0 14,
     tok Symbol '':='' 0 16,
     tok Operation ''hd'' 0 19,
     tok Identifier ''XY'' 0 22,
     tok Symbol '';'' 0 24,
     tok Identifier ''Y'' 0 26,
     tok Symbol '':='' 0 28,
     tok Operation ''tl'' 0 31,
     tok Identifier ''XY'' 0 34,
     tok Symbol '';'' 0 36,
     tok Expression ''while'' 0 38,
     tok Identifier ''X'' 0 44,
     tok Symbol ''{'' 0 46,
     tok Identifier ''Y'' 0 48,
     tok Symbol '':='' 0 50,
     tok Operation ''cons'' 0 53,
     tok Identifier ''nil'' 0 58,
     tok Identifier ''Y'' 0 62,
     tok Symbol '';'' 0 63,
     tok Identifier ''X'' 0 65,
     tok Symbol '':='' 0 67,
     tok Operation ''tl'' 0 70,
     tok Identifier ''X'' 0 73,
     tok Symbol ''}'' 0 75,
     tok Symbol ''}'' 0 77,
     tok Expression ''write'' 0 79,
     tok Identifier ''Y'' 0 85]"

definition add_ast :: prog where
  "add_ast =
     \<lparr>prog_complete = True,
      prog_input = Some (tok Identifier ''XY'' 0 9),
      prog_output = Some (tok Identifier ''Y'' 0 85),
      prog_name = Some (tok Identifier ''add'' 0 0),
      prog_body =
        [Some (Assign True (tok Identifier ''X'' 0 14)
           (Some (EOp True (tok Operation ''hd'' 0 19) [Some (EIdent (tok Identifier ''XY'' 0 22))]))),
         Some (Assign True (tok Identifier ''Y'' 0 26)
           (Some (EOp True (tok Operation ''tl'' 0 31) [Some (EIdent (tok Identifier ''XY'' 0 34))]))),
         Some (Loop True (Some (EIdent (tok Identifier ''X'' 0 44)))
           [Some (Assign True (tok Identifier ''Y'' 0 48)
              (Some (EOp True (tok Operation ''cons'' 0 53)
                 [Some (EIdent (tok Identifier ''nil'' 0 58)),
                  Some (EIdent (tok Identifier ''Y'' 0 62))]))),
            Some (Assign True (tok Identifier ''X'' 0 65)
              (Some (EOp True (tok Operation ''tl'' 0 70)
                 [Some (EIdent (tok Identifier ''X'' 0 73))])))])]\<rparr>"

lemma parse_add: "parser add_tokens None = ((add_ast, []), [])"
  by code_simp

lemma numToTree_loop_Node: "numToTree_loop n (Node Nil t) = Node Nil (numToTree_loop n t)"
  by (induction n arbitrary: t) simp_all

lemma numToTree_simps: "numToTree 0 = Nil" "numToTree (Suc n) = Node Nil (numToTree n)"
  by (simp_all add: numToTree_def numToTree_loop_Node)

lemma run_add:
  "run \<lparr>i_program = add_ast, i_input = Node (numToTree 3) (numToTree 2),
        i_store = Map.empty(Str ''XY'' \<mapsto> Node (numToTree 3) (numToTree 2))\<rparr>
   = Some (Inr (numToTree 5,
        \<lparr>i_program = add_ast, i_input = Node (numToTree 3) (numToTree 2),
         i_store = (Map.empty(Str ''XY'' \<mapsto> Node (numToTree 3) (numToTree 2)))
                     (Str ''X'' \<mapsto> Nil, Str ''Y'' \<mapsto> numToTree 5)\<rparr>))"
  by (simp add: run_def add_ast_def run_loop_Cons run_loop_Nil evalExpr_deval apply_op_def
      get_or_nil_def numToTree_simps eval_nat_numeral fun_upd_twist)



text \<open>
  Claim C4. The parser turns the tokens of the addition program into a complete program
  without errors; the interpreter, on the pair of \<open>encode 3\<close> and \<open>encode 2\<close>, returns
  \<open>encode 5\<close>, where \<open>encode 0\<close> is \<open>nil\<close> and \<open>encode (n + 1)\<close> is the pair of \<open>nil\<close> and
  \<open>encode n\<close>. A loop frame whose condition evaluates to a tree that is not \<open>nil\<close> pushes
  itself back and then the block of its body, so the run goes on with the body and meets
  the loop again after it; on \<open>nil\<close> the loop frame is dropped.
\<close>

theorem add_program:
  assumes "evalExpr s cond = Inr v"
  shows "(\<exists>I I'. parser add_tokens None = ((add_ast, []), [])
            \<and> Interpreter add_ast (Node (numToTree 3) (numToTree 2)) = Inr I
            \<and> run I = Some (Inr (numToTree 5, I')))
       \<and> numToTree 0 = Nil \<and> (\<forall>n. numToTree (Suc n) = Node Nil (numToTree n))
       \<and> exec_op s (CCmd (Some (Loop c cond body))) stack =
            Inr (if v \<noteq> Nil then (CBlock body # CCmd (Some (Loop c cond body)) # stack, s)
                 else (stack, s))
       \<and> run_loop (CCmd (Some (Loop c cond body)) # stack) s =
            (if v \<noteq> Nil then run_loop (CBlock body # CCmd (Some (Loop c cond body)) # stack) s
             else run_loop stack s)"
proof -
  have "Interpreter add_ast (Node (numToTree 3) (numToTree 2)) =
          Inr \<lparr>i_program = add_ast, i_input = Node (numToTree 3) (numToTree 2),
               i_store = Map.empty(Str ''XY'' \<mapsto> Node (numToTree 3) (numToTree 2))\<rparr>"
    by (simp add: Interpreter_def add_ast_def)
  with parse_add run_add
  have A: "\<exists>I I'. parser add_tokens None = ((add_ast, []), [])
            \<and> Interpreter add_ast (Node (numToTree 3) (numToTree 2)) = Inr I
            \<and> run I = Some (Inr (numToTree 5, I'))"
    by blast
  have B: "exec_op s (CCmd (Some (Loop c cond body))) stack =
            Inr (if v \<noteq> Nil then (CBlock body # CCmd (Some (Loop c cond body)) # stack, s)
                 else (stack, s))"
    using assms by simp
  have C: "run_loop (CCmd (Some (Loop c cond body)) # stack) s =
            (if v \<noteq> Nil then run_loop (CBlock body # CCmd (Some (Loop c cond body)) # stack) s
             else run_loop stack s)"
    by (subst run_loop_Cons) (simp add: B del: exec_op.simps)
  from A B C numToTree_simps show ?thesis by blast
qed

theorem add_program_witness:
  "evalExpr (Map.empty(Str ''X'' \<mapsto> Node Nil Nil)) (Some (EIdent (tok Identifier ''X'' 0 44)))
     = Inr (Node Nil Nil)
   \<and> exec_op (Map.empty(Str ''X'' \<mapsto> Node Nil Nil))
        (CCmd (Some (Loop True (Some (EIdent (tok Identifier ''X'' 0 44))) [grow_Y]))) []
     = Inr ([CBlock [grow_Y], CCmd (Some (Loop True (Some (EIdent (tok Identifier ''X'' 0 44))) [grow_Y]))],
            Map.empty(Str ''X'' \<mapsto> Node Nil Nil))
   \<and> (\<exists>I I'. parser add_tokens None = ((add_ast, []), [])
            \<and> Interpreter add_ast (Node (numToTree 3) (numToTree 2)) = Inr I
            \<and> run I = Some (Inr (numToTree 5, I')))"
proof -
  have e: "evalExpr (Map.empty(Str ''X'' \<mapsto> Node Nil Nil)) (Some (EIdent (tok Identifier ''X'' 0 44)))
     = Inr (Node Nil Nil)"
    by (simp add: evalExpr_deval get_or_nil_def)
  from add_program[OF e, of True "[grow_Y]" "[]"] e show ?thesis by simp
qed



section \<open>Properties of the parser\<close>

subsection \<open>An \<open>if\<close> without \<open>else\<close>\<close>

text \<open>
  Two statements as token lists: \<open>if X { }\<close> at the very end of the input, and
  \<open>if X { Y := hd X }\<close> followed by the \<open>}\<close> of an enclosing block.
\<close>

definition if_at_end_tokens :: "token list" where
  "if_at_end_tokens =
    [tok Expression ''if'' 0 0,
     tok Identifier ''X'' 0 3,
     tok Symbol ''{'' 0 5,
     tok Symbol ''}'' 0 7]"

definition if_tokens :: "token list" where
  "if_tokens =
    [tok Expression ''if'' 0 0,
     tok Identifier ''X'' 0 3,
     tok Symbol ''{'' 0 5,
     tok Identifier ''Y'' 0 7,
     tok Symbol '':='' 0 9,
     tok Operation ''hd'' 0 12,
     tok Identifier ''X'' 0 15,
     tok Symbol ''}'' 0 17,
     tok Symbol ''}'' 0 19]"



text \<open>
  Claim C6, as stated: every \<open>if\<close> whose condition and block parse without error and
  that is not followed by \<open>else\<close> gives a complete conditional with an empty else branch
  and no error. It fails when nothing at all follows the block: \<open>_readElse\<close> then
  records \<open>Unexpected end of input\<close> and returns \<open>EOI\<close>, and the conditional is partial.
\<close>

theorem if_at_end_of_input_counterexample:
  "readExpr (snd (next_tok (StateManager if_at_end_tokens))) \<lparr>pureOnly = False\<rparr> =
     (Some (EIdent (tok Identifier ''X'' 0 3)),
      \<lparr>tokens = [tok Symbol ''{'' 0 5, tok Symbol ''}'' 0 7], pos = \<lparr>row = 0, col = 3\<rparr>,
       lastToken = Some (tok Identifier ''X'' 0 3), errors = []\<rparr>)
   \<and> readBlock
       \<lparr>tokens = [tok Symbol ''{'' 0 5, tok Symbol ''}'' 0 7], pos = \<lparr>row = 0, col = 3\<rparr>,
        lastToken = Some (tok Identifier ''X'' 0 3), errors = []\<rparr> \<lparr>pureOnly = False\<rparr> =
     ((OK, []),
      \<lparr>tokens = [], pos = \<lparr>row = 0, col = 7\<rparr>, lastToken = Some (tok Symbol ''}'' 0 7),
       errors = []\<rparr>)
   \<and> readStmt (StateManager if_at_end_tokens) \<lparr>pureOnly = False\<rparr> =
     ((ERROR, Some (Cond False (Some (EIdent (tok Identifier ''X'' 0 3))) [] [])),
      \<lparr>tokens = [], pos = \<lparr>row = 0, col = 7\<rparr>, lastToken = Some (tok Symbol ''}'' 0 7),
       errors = [\<lparr>position = \<lparr>row = 0, col = 7\<rparr>,
                  message = ''Unexpected end of input: Expected '' @ [CHR 0x22] @ ''}'' @ [CHR 0x22]\<rparr>]\<rparr>)"
  by code_simp


text \<open>
  Claim C6, amended: when the condition is read complete, the block is read with status
  \<open>OK\<close>, and the token that follows is not \<open>else\<close> (a token does follow), the statement
  is the complete conditional with the empty else branch, its status is \<open>OK\<close>, and the
  parser is left in the state it had after the block: nothing is recorded or consumed for
  the absent \<open>else\<close>.
\<close>

theorem if_without_else:
  assumes "tokens st = first # ts" and "tvalue first = Str TKN_IF"
    and "readExpr (snd (next_tok st)) opts = (Some c, st2)" and "leaf_or_complete c"
    and "readBlock st2 opts = ((OK, ifBlock), st3)"
    and "peek st3 = Some nxt" and "tvalue nxt \<noteq> Str TKN_ELSE"
  shows "readStmt st opts = ((OK, Some (Cond True (Some c) ifBlock [])), st3)"
proof -
  from assms(6,7) have "readElse st3 opts = ((OK, []), st3)"
    by (simp add: readElse.simps)
  with assms(1-5) show ?thesis
    by (subst readStmt.simps) (simp add: split_beta peek_def)
qed

theorem if_without_else_witness:
  "readStmt (StateManager if_tokens) \<lparr>pureOnly = False\<rparr> =
     ((OK, Some (Cond True (Some (EIdent (tok Identifier ''X'' 0 3)))
         [Some (Assign True (tok Identifier ''Y'' 0 7)
            (Some (EOp True (tok Operation ''hd'' 0 12) [Some (EIdent (tok Identifier ''X'' 0 15))])))]
         [])),
      \<lparr>tokens = [tok Symbol ''}'' 0 19], pos = \<lparr>row = 0, col = 17\<rparr>,
       lastToken = Some (tok Symbol ''}'' 0 17), errors = []\<rparr>)"
proof -
  let ?opts = "\<lparr>pureOnly = False\<rparr>"
  let ?st2 = "snd (readExpr (snd (next_tok (StateManager if_tokens))) ?opts)"
  let ?st3 = "\<lparr>tokens = [tok Symbol ''}'' 0 19], pos = \<lparr>row = 0, col = 17\<rparr>,
       lastToken = Some (tok Symbol ''}'' 0 17), errors = []\<rparr>"
  have 1: "tokens (StateManager if_tokens) = tok Expression ''if'' 0 0 # tl if_tokens"
    by (simp add: StateManager_def if_tokens_def)
  have 2: "tvalue (tok Expression ''if'' 0 0) = Str TKN_IF" by (simp add: TKN_IF_def)
  have 3: "readExpr (snd (next_tok (StateManager if_tokens))) ?opts
             = (Some (EIdent (tok Identifier ''X'' 0 3)), ?st2)"
    by code_simp
  have 4: "leaf_or_complete (EIdent (tok Identifier ''X'' 0 3))" by simp
  have 5: "readBlock ?st2 ?opts =
     ((OK, [Some (Assign True (tok Identifier ''Y'' 0 7)
            (Some (EOp True (tok Operation ''hd'' 0 12) [Some (EIdent (tok Identifier ''X'' 0 15))])))]),
      ?st3)"
    by code_simp
  have 6: "peek ?st3 = Some (tok Symbol ''}'' 0 19)" by (simp add: peek_def)
  have 7: "tvalue (tok Symbol ''}'' 0 19) \<noteq> Str TKN_ELSE" by (simp add: TKN_ELSE_def)
  from if_without_else[OF 1 2 3 4 5 6 7] show ?thesis .
qed



subsection \<open>Tokens are only taken, errors only added\<close>

text \<open>
  \<open>within T E st\<close>: the queue of \<open>st\<close> is a final segment of \<open>T\<close> and its error list
  starts with \<open>E\<close>. Every operation of the state manager and every parsing function
  keeps it: tokens are only taken from the front and errors only added at the end.
\<close>

definition within :: "token list \<Rightarrow> error list \<Rightarrow> state \<Rightarrow> bool" where
  "within T E st \<longleftrightarrow> suffix (tokens st) T \<and> prefix E (errors st)"

lemma within_refl: "within (tokens st) (errors st) st"
  by (simp add: within_def)

lemma within_next [simp]: "within T E st \<Longrightarrow> within T E (snd (next_tok st))"
  unfolding within_def
  by (cases "tokens st") (auto simp: suffix_Cons intro: suffix_ConsD)

lemma prefix_em [simp]:
  "prefix E errs \<Longrightarrow> prefix E (addError errs p m)"
  "prefix E errs \<Longrightarrow> prefix E (em_unexpectedValue errs p ty a ex)"
  "prefix E errs \<Longrightarrow> prefix E (em_unexpectedToken errs p a ex)"
  "prefix E errs \<Longrightarrow> prefix E (em_unexpectedEOI errs p ex)"
  by (simp_all add: addError_def em_unexpectedValue_def em_unexpectedToken_def
        em_unexpectedEOI_def Let_def)

lemma within_unexpected [simp]:
  "within T E st \<Longrightarrow> within T E (unexpectedEOI st e)"
  "within T E st \<Longrightarrow> within T E (unexpectedToken st a e)"
  "within T E st \<Longrightarrow> within T E (unexpectedValue st ty a e)"
  "within T E st \<Longrightarrow> within T E (unexpectedEOICustom st m)"
  "within T E st \<Longrightarrow> within T E (unexpectedTokenCustom st a m)"
  "within T E st \<Longrightarrow> within T E (st_addError st m)"
  by (simp_all add: within_def unexpectedEOI_def unexpectedToken_def unexpectedValue_def
      unexpectedEOICustom_def unexpectedTokenCustom_def st_addError_def Let_def)

lemma within_expect [simp]: "within T E st \<Longrightarrow> within T E (snd (expect st e))"
  by (cases "tokens st") (simp_all add: expect_def split_beta peek_def)

lemma within_consumeUntil [simp]:
  "within T E st \<Longrightarrow> within T E (snd (consumeUntil st e r))"
proof (induction st e r rule: consumeUntil.induct)
  case (1 st expected res)
  show ?case
  proof (cases "tokens st")
    case Nil
    with 1(2) show ?thesis by (subst consumeUntil.simps) (simp add: peek_def)
  next
    case (Cons t ts)
    show ?thesis
    proof (cases "\<exists>e \<in> set expected. tvalue t = Str e")
      case True
      with Cons 1(2) show ?thesis by (subst consumeUntil.simps) (simp add: peek_def)
    next
      case False
      have "peek st = Some t" using Cons by (simp add: peek_def)
      from 1(1)[OF this False prod.collapse] 1(2) Cons False show ?thesis
        by (subst consumeUntil.simps) (simp add: peek_def split_beta)
    qed
  qed
qed

lemma readExpr_within [simp]:
  "within T E st \<Longrightarrow> within T E (snd (readExpr st opts))"
proof (induction st opts rule: readExpr.induct)
  case (1 st opts)
  note IH = 1(1)[OF prod.collapse] 1(2)[OF prod.collapse] 1(3)[OF prod.collapse]
            1(4)[OF prod.collapse _ _ _ _ prod.collapse]
  note w = 1(5)
  show ?case
  proof (cases "tokens st")
    case Nil
    with w show ?thesis by (subst readExpr.simps) (simp add: split_beta peek_def)
  next
    case (Cons first ts)
    then have pk: "peek st = Some first" by (simp add: peek_def)
    note IH' = IH[unfolded fst_next_tok, OF pk]
    consider (paren) "tvalue first = Str TKN_PREN_OPN"
      | (hdtl) "tvalue first \<noteq> Str TKN_PREN_OPN" "ttype first = Operation"
               "tvalue first = Str TKN_HD \<or> tvalue first = Str TKN_TL"
      | (cons) "tvalue first \<noteq> Str TKN_PREN_OPN" "ttype first = Operation"
               "\<not> (tvalue first = Str TKN_HD \<or> tvalue first = Str TKN_TL)"
      | (other) "tvalue first \<noteq> Str TKN_PREN_OPN" "ttype first \<noteq> Operation"
      by blast
    then show ?thesis
    proof cases
      case paren
      from IH'(1)[OF paren] w show ?thesis
        by (subst readExpr.simps) (use paren pk in \<open>auto simp: split_beta split: option.splits\<close>)
    next
      case hdtl
      from IH'(2)[OF hdtl] w show ?thesis
        by (subst readExpr.simps) (use hdtl pk in \<open>auto simp: split_beta split: option.splits\<close>)
    next
      case cons
      from IH'(3)[OF cons] IH'(4)[OF cons] w show ?thesis
        by (subst readExpr.simps) (use cons pk in \<open>auto simp: split_beta split: option.splits\<close>)
    next
      case other
      with w show ?thesis
        by (subst readExpr.simps) (use pk in \<open>auto simp: split_beta split: option.splits\<close>)
    qed
  qed
qed


lemmas parse_induct =
  readStmt_readElse_readBlock_readStatementList_loop_readCase_readSwitch_readSwitch_loop.induct

lemma parse_within:
  shows "within T E st \<Longrightarrow> within T E (snd (readStmt st opts))"
    and "within T E st2 \<Longrightarrow> within T E (snd (readElse st2 opts2))"
    and "within T E st3 \<Longrightarrow> within T E (snd (readBlock st3 opts3))"
    and "within T E st4 \<Longrightarrow> within T E (snd (readStatementList_loop st4 opts4 res4 status4))"
    and "within T E st5 \<Longrightarrow> within T E (snd (readCase st5 opts5))"
    and "within T E st6 \<Longrightarrow> within T E (snd (readSwitch st6 opts6))"
    and "within T E st7 \<Longrightarrow> within T E (snd (readSwitch_loop st7 opts7 status7 cases7 dflt7))"
proof (induct st opts and st2 opts2 and st3 opts3 and st4 opts4 res4 status4 and st5 opts5
         and st6 opts6 and st7 opts7 status7 cases7 dflt7 rule: parse_induct)
  case (1 st opts)
  note w = \<open>within T E st\<close>
  show ?case
  proof (cases "tokens st")
    case Nil
    with w show ?thesis by (subst readStmt.simps) (auto simp: split_beta peek_def)
  next
    case (Cons first ts)
    then have pk: "fst (next_tok st) = Some first" by (simp add: peek_def)
    let ?st1 = "snd (next_tok st)"
    have w1: "within T E ?st1" using w by simp
    consider (cond) "tvalue first = Str TKN_IF"
      | (loop) "tvalue first \<noteq> Str TKN_IF" "tvalue first = Str TKN_WHILE"
      | (assign) "tvalue first \<noteq> Str TKN_IF" "tvalue first \<noteq> Str TKN_WHILE"
                 "ttype first = Identifier"
      | (switch) "tvalue first \<noteq> Str TKN_IF" "tvalue first \<noteq> Str TKN_WHILE"
                 "ttype first \<noteq> Identifier" "\<not> pureOnly opts \<and> tvalue first = Str TKN_SWITCH"
      | (other) "tvalue first \<noteq> Str TKN_IF" "tvalue first \<noteq> Str TKN_WHILE"
                 "ttype first \<noteq> Identifier" "\<not> (\<not> pureOnly opts \<and> tvalue first = Str TKN_SWITCH)"
      by blast
    then show ?thesis
    proof cases
      case cond
      note a = 1(1)[OF prod.collapse pk cond prod.collapse]
      note b = 1(2)[OF prod.collapse pk cond prod.collapse prod.collapse prod.collapse]
      from a b w1 show ?thesis
        by (subst readStmt.simps) (use cond Cons in \<open>auto simp: split_beta peek_def\<close>)
    next
      case loop
      note a = 1(3)[OF prod.collapse pk loop prod.collapse]
      from a w1 show ?thesis
        by (subst readStmt.simps) (use loop Cons in \<open>auto simp: split_beta peek_def\<close>)
    next
      case assign
      from w1 show ?thesis
        by (subst readStmt.simps) (use assign Cons in \<open>auto simp: split_beta peek_def\<close>)
    next
      case switch
      note a = 1(4)[OF prod.collapse pk switch]
      from a w1 show ?thesis
        by (subst readStmt.simps) (use switch Cons in \<open>auto simp: split_beta peek_def\<close>)
    next
      case other
      with w1 show ?thesis
        by (subst readStmt.simps) (use Cons in \<open>auto simp: split_beta peek_def\<close>)
    qed
  qed
next
  case (2 st opts)
  note w = \<open>within T E st\<close>
  show ?case
  proof (cases "tokens st")
    case Nil
    with w show ?thesis by (subst readElse.simps) (simp add: peek_def)
  next
    case (Cons t ts)
    then have pk: "peek st = Some t" by (simp add: peek_def)
    show ?thesis
    proof (cases "tvalue t = Str TKN_ELSE")
      case True
      from 2(1)[OF pk True] w show ?thesis
        by (subst readElse.simps) (use True pk in simp)
    next
      case False
      with w show ?thesis by (subst readElse.simps) (use pk in simp)
    qed
  qed
next
  case (3 st opts)
  note w = \<open>within T E st\<close>
  let ?st1 = "snd (expect st [TKN_BLOCK_OPN])"
  have w1: "within T E ?st1" using w by simp
  show ?case
  proof (cases "peek ?st1")
    case None
    with w1 show ?thesis
      by (subst readBlock.simps) (auto simp: split_beta)
  next
    case (Some first)
    show ?thesis
    proof (cases "tvalue first = Str TKN_BLOCK_CLS")
      case True
      with w1 Some show ?thesis
        by (subst readBlock.simps) (simp add: split_beta)
    next
      case False
      from 3(1)[OF prod.collapse Some False] w1 show ?thesis
        by (subst readBlock.simps) (use Some False in \<open>auto simp add: split_beta\<close>)
    qed
  qed
next
  case (4 st opts res status)
  note w = \<open>within T E st\<close>
  let ?r = "readStmt st opts"
  let ?st2 = "if fst (fst ?r) = ERROR
              then snd (consumeUntil (snd ?r) [TKN_BLOCK_CLS, TKN_SEP] []) else snd ?r"
  have wr: "within T E (snd ?r)" using 4(1) w by simp
  then have w2: "within T E ?st2" by simp
  show ?case
  proof (cases "fst (fst ?r) = EOI")
    case True
    with wr show ?thesis
      by (subst readStatementList_loop.simps) (auto simp: split_beta)
  next
    case False
    show ?thesis
    proof (cases "peek ?st2")
      case None
      with w2 False show ?thesis
        by (subst readStatementList_loop.simps) (auto simp: split_beta Let_def)
    next
      case (Some nxt)
      show ?thesis
      proof (cases "tvalue nxt = Str TKN_SEP")
        case True
        note a = 4(2)[OF prod.collapse prod.collapse False refl refl Some True]
        from a w2 show ?thesis
          by (subst readStatementList_loop.simps)
             (use False Some True in \<open>auto simp: split_beta Let_def\<close>)
      next
        case F: False
        from w2 show ?thesis
          by (subst readStatementList_loop.simps)
             (use False Some F in \<open>auto simp: split_beta Let_def\<close>)
      qed
    qed
  qed
next
  case (5 st opts)
  note w = \<open>within T E st\<close>
  show ?case
  proof (cases "tokens st")
    case Nil
    with w show ?thesis by (subst readCase.simps) (auto simp: split_beta peek_def)
  next
    case (Cons caseTkn ts)
    then have pk: "fst (next_tok st) = Some caseTkn" by (simp add: peek_def)
    let ?st1 = "snd (next_tok st)"
    have w1: "within T E ?st1" using w by simp
    consider (dflt) "tvalue caseTkn = Str TKN_DEFAULT"
      | (case_) "tvalue caseTkn \<noteq> Str TKN_DEFAULT" "tvalue caseTkn = Str TKN_CASE"
      | (other) "tvalue caseTkn \<noteq> Str TKN_DEFAULT" "tvalue caseTkn \<noteq> Str TKN_CASE"
      by blast
    then show ?thesis
    proof cases
      case dflt
      note a = 5(1)[OF prod.collapse pk dflt prod.collapse]
      from a w1 show ?thesis
        by (subst readCase.simps) (use dflt Cons in \<open>auto simp: split_beta peek_def\<close>)
    next
      case case_
      show ?thesis
      proof (cases "fst (readExpr ?st1 opts)")
        case None
        with w1 show ?thesis
          by (subst readCase.simps) (use case_ Cons in \<open>auto simp: split_beta peek_def\<close>)
      next
        case (Some expr)
        note a = 5(2)[OF prod.collapse pk case_ prod.collapse Some prod.collapse]
        from a w1 show ?thesis
          by (subst readCase.simps) (use case_ Cons Some in \<open>auto simp: split_beta peek_def\<close>)
      qed
    next
      case other
      with w1 show ?thesis
        by (subst readCase.simps) (use Cons in \<open>auto simp: split_beta peek_def\<close>)
    qed
  qed
next
  case (6 st opts)
  note w = \<open>within T E st\<close>
  let ?st1 = "snd (readExpr st opts)"
  let ?e = "expect ?st1 [TKN_BLOCK_OPN]"
  have w1: "within T E (snd ?e)" using w by simp
  show ?case
  proof (cases "fst (fst ?e) = EOI")
    case True
    with w1 show ?thesis
      by (subst readSwitch.simps) (auto simp: split_beta)
  next
    case False
    note a = 6(1)[OF prod.collapse prod.collapse prod.collapse False]
    from a w1 show ?thesis
      by (subst readSwitch.simps) (use False in \<open>auto simp: split_beta Let_def\<close>)
  qed
next
  case (7 st opts status cases dflt)
  note w = \<open>within T E st\<close>
  show ?case
  proof (cases "peek st")
    case None
    with w show ?thesis by (subst readSwitch_loop.simps) simp
  next
    case (Some nxt)
    note pk = Some
    show ?thesis
    proof (cases "tvalue nxt \<noteq> Str TKN_DEFAULT \<and> tvalue nxt \<noteq> Str TKN_CASE")
      case True
      with w show ?thesis by (subst readSwitch_loop.simps) (use pk in simp)
    next
      case False
      let ?st1 = "if dflt \<noteq> None
                  then unexpectedToken st (Some (tvalue nxt)) [TKN_BLOCK_CLS] else st"
      let ?r = "readCase ?st1 opts"
      let ?status1 = "if status \<noteq> OK then fst (fst ?r) else status"
      have w1: "within T E ?st1" using w by simp
      note a = 7(1)[OF pk False refl]
      with w1 have wr: "within T E (snd ?r)" by blast
      show ?thesis
      proof (cases "?status1 = EOI \<or> snd (fst ?r) = None")
        case True
        with wr show ?thesis
          by (subst readSwitch_loop.simps) (use pk False in \<open>auto simp add: split_beta Let_def\<close>)
      next
        case F: False
        then obtain cl where cl: "snd (fst ?r) = Some cl" by auto
        show ?thesis
        proof (cases cl)
          case (ClauseCase c)
          note b = 7(2)[OF pk False refl prod.collapse prod.collapse refl F cl ClauseCase]
          from b wr show ?thesis
            by (subst readSwitch_loop.simps)
               (use pk False F cl ClauseCase in \<open>auto simp add: split_beta Let_def\<close>)
        next
          case (ClauseDefault d)
          note b = 7(3)[OF pk False refl prod.collapse prod.collapse refl F cl ClauseDefault]
          from b wr show ?thesis
            by (subst readSwitch_loop.simps)
               (use pk False F cl ClauseDefault in \<open>auto simp add: split_beta Let_def\<close>)
        qed
      qed
    qed
  qed
qed


lemma readStmt_len: "length (tokens (snd (readStmt st opts))) \<le> length (tokens st)"
  using parse_len_dom(1)[of st opts] parse_total by blast

lemma readStatementList_loop_result:
  "prefix res (snd (fst (readStatementList_loop st opts res status)))
   \<and> (status \<noteq> OK \<longrightarrow> fst (fst (readStatementList_loop st opts res status)) \<noteq> OK)"
proof (induction "length (tokens st)" arbitrary: st res status rule: less_induct)
  case less
  let ?r = "readStmt st opts"
  let ?st2 = "if fst (fst ?r) = ERROR
              then snd (consumeUntil (snd ?r) [TKN_BLOCK_CLS, TKN_SEP] []) else snd ?r"
  let ?status1 = "if fst (fst ?r) = ERROR then ERROR else status"
  have l2: "length (tokens ?st2) \<le> length (tokens st)"
    using readStmt_len[of st opts] consumeUntil_len[of "snd ?r" "[TKN_BLOCK_CLS, TKN_SEP]" "[]"]
    by auto
  show ?case
  proof (cases "fst (fst ?r) = EOI")
    case True
    then show ?thesis
      by (subst (1 2) readStatementList_loop.simps) (simp add: split_beta)
  next
    case False
    show ?thesis
    proof (cases "peek ?st2")
      case None
      with False show ?thesis
        by (subst (1 2) readStatementList_loop.simps) (simp add: split_beta Let_def)
    next
      case (Some nxt)
      show ?thesis
      proof (cases "tvalue nxt = Str TKN_SEP")
        case True
        from Some l2 have "length (tokens (snd (next_tok ?st2))) < length (tokens st)"
          by (auto simp: peek_def split: list.splits)
        note IH = less[OF this, of "res @ [snd (fst ?r)]" ?status1]
        have eq: "readStatementList_loop st opts res status =
                  readStatementList_loop (snd (next_tok ?st2)) opts (res @ [snd (fst ?r)]) ?status1"
          by (subst readStatementList_loop.simps)
             (use False Some True in \<open>simp add: split_beta Let_def\<close>)
        from IH show ?thesis unfolding eq by (auto dest: append_prefixD)
      next
        case F: False
        with False Some show ?thesis
          by (subst (1 2) readStatementList_loop.simps) (simp add: split_beta Let_def)
      qed
    qed
  qed
qed

lemma readStatementList_loop_step:
  assumes "readStmt st opts = ((s, stmt), st1)"
  shows "prefix (res @ [stmt]) (snd (fst (readStatementList_loop st opts res status)))"
    and "s \<noteq> OK \<Longrightarrow> fst (fst (readStatementList_loop st opts res status)) \<noteq> OK"
    and "within T E st1 \<Longrightarrow> within T E (snd (readStatementList_loop st opts res status))"
proof -
  let ?st2 = "if s = ERROR then snd (consumeUntil st1 [TKN_BLOCK_CLS, TKN_SEP] []) else st1"
  let ?status1 = "if s = ERROR then ERROR else status"
  let ?L = "readStatementList_loop st opts res status"
  have "prefix (res @ [stmt]) (snd (fst ?L)) \<and> (s \<noteq> OK \<longrightarrow> fst (fst ?L) \<noteq> OK)
        \<and> (within T E st1 \<longrightarrow> within T E (snd ?L))"
  proof (cases "s = EOI")
    case True
    with assms show ?thesis
      by (subst (1 2 3) readStatementList_loop.simps) simp
  next
    case False
    show ?thesis
    proof (cases "peek ?st2")
      case None
      with False assms show ?thesis
        by (subst (1 2 3) readStatementList_loop.simps) (simp add: Let_def)
    next
      case (Some nxt)
      show ?thesis
      proof (cases "tvalue nxt = Str TKN_SEP")
        case True
        have eq: "?L = readStatementList_loop (snd (next_tok ?st2)) opts (res @ [stmt]) ?status1"
          by (subst readStatementList_loop.simps)
             (use assms False Some True in \<open>simp add: Let_def\<close>)
        have "s \<noteq> OK \<Longrightarrow> ?status1 \<noteq> OK" using False by (cases s) auto
        moreover have "within T E st1 \<Longrightarrow> within T E (snd (next_tok ?st2))" by simp
        ultimately show ?thesis
          unfolding eq
          using readStatementList_loop_result[of "res @ [stmt]" "snd (next_tok ?st2)" opts ?status1]
                parse_within(4)[of T E "snd (next_tok ?st2)" opts "res @ [stmt]" ?status1]
          by blast
      next
        case F: False
        with False Some assms show ?thesis
          by (subst (1 2 3) readStatementList_loop.simps) (cases s; auto simp add: Let_def)
      qed
    qed
  qed
  then show "prefix (res @ [stmt]) (snd (fst ?L))"
    and "s \<noteq> OK \<Longrightarrow> fst (fst ?L) \<noteq> OK"
    and "within T E st1 \<Longrightarrow> within T E (snd ?L)" by blast+
qed


subsection \<open>A separator before the closing brace\<close>

text \<open>
  The tokens of \<open>prog read X { Y := X; } write Y\<close>, and the error \<open>_readStmt\<close> records
  when the token it takes starts no statement.
\<close>

definition trailing_sep_tokens :: "token list" where
  "trailing_sep_tokens =
    [tok Identifier ''prog'' 0 0,
     tok Expression ''read'' 0 5,
     tok Identifier ''X'' 0 10,
     tok Symbol ''{'' 0 12,
     tok Identifier ''Y'' 0 14,
     tok Symbol '':='' 0 16,
     tok Identifier ''X'' 0 19,
     tok Symbol '';'' 0 20,
     tok Symbol ''}'' 0 22,
     tok Expression ''write'' 0 24,
     tok Identifier ''Y'' 0 30]"

definition stray_close_error :: "position \<Rightarrow> error" where
  "stray_close_error p =
     \<lparr>position = p,
      message = ''Unexpected token: Expected if while or an assignment statement''\<rparr>"

lemma readStmt_block_close:
  assumes "tokens st = cls # rest" and "tvalue cls = Str TKN_BLOCK_CLS"
    and "ttype cls \<noteq> Identifier"
  shows "readStmt st opts =
           ((ERROR, None),
            unexpectedTokenCustom (snd (next_tok st)) None
              (''Expected '' @ TKN_IF @ '' '' @ TKN_WHILE @ '' or an assignment statement''))"
  by (subst readStmt.simps) (use assms in \<open>simp add: next_tok_def TKN_defs\<close>)


text \<open>
  Claim C5, as stated: a \<open>;\<close> immediately followed by \<open>}\<close> is tolerated, with no error and
  no empty statement, and the program is parsed normally after the block. It is not:
  after the \<open>;\<close> the loop of \<open>_readStatementList\<close> calls \<open>_readStmt\<close> again, which takes
  the \<open>}\<close>, records an error and returns \<open>null\<close>; the tokens that follow are then dropped
  up to the next \<open>;\<close> or \<open>}\<close>. On \<open>prog read X { Y := X; } write Y\<close> the body is the
  assignment followed by \<open>null\<close>, two errors are recorded, \<open>write Y\<close> is never read and
  the program is partial.
\<close>

theorem trailing_separator_counterexample:
  "parser trailing_sep_tokens None =
     ((\<lparr>prog_complete = False,
        prog_input = Some (tok Identifier ''X'' 0 10),
        prog_output = None,
        prog_name = Some (tok Identifier ''prog'' 0 0),
        prog_body = [Some (Assign True (tok Identifier ''Y'' 0 14)
                       (Some (EIdent (tok Identifier ''X'' 0 19)))), None]\<rparr>,
       [stray_close_error \<lparr>row = 0, col = 22\<rparr>,
        \<lparr>position = \<lparr>row = 0, col = 31\<rparr>,
         message = ''Unexpected end of input: Expected one of '' @ dq @ '';'' @ dq @ '', ''
                     @ dq @ ''}'' @ dq\<rparr>]),
      [])"
  by code_simp


text \<open>
  Claim C5, amended: when a statement that parses with status \<open>OK\<close> is followed by \<open>;\<close>
  and then \<open>}\<close>, the statement list does not end with status \<open>OK\<close>; its result holds the
  statement followed by \<open>null\<close>; the error \<open>Unexpected token: Expected if while or an
  assignment statement\<close> is recorded at the position of the \<open>}\<close>, right after the errors
  recorded so far; and the \<open>}\<close> has been taken from the queue, of which only tokens after
  the \<open>}\<close> remain.
\<close>

theorem trailing_separator:
  assumes "readStmt st opts = ((OK, stmt), st1)"
    and "tokens st1 = sep # cls # rest"
    and "tvalue sep = Str TKN_SEP"
    and "tvalue cls = Str TKN_BLOCK_CLS" and "ttype cls \<noteq> Identifier"
  shows "fst (fst (readStatementList_loop st opts res status)) \<noteq> OK
       \<and> prefix (res @ [stmt, None]) (snd (fst (readStatementList_loop st opts res status)))
       \<and> prefix (errors st1 @ [stray_close_error (tpos cls)])
                (errors (snd (readStatementList_loop st opts res status)))
       \<and> suffix (tokens (snd (readStatementList_loop st opts res status))) rest"
proof -
  let ?stA = "snd (next_tok st1)"
  let ?stB = "unexpectedTokenCustom (snd (next_tok ?stA)) None
              (''Expected '' @ TKN_IF @ '' '' @ TKN_WHILE @ '' or an assignment statement'')"
  have pk: "peek st1 = Some sep" using assms(2) by (simp add: peek_def)
  have eq: "readStatementList_loop st opts res status =
            readStatementList_loop ?stA opts (res @ [stmt]) status"
    by (subst readStatementList_loop.simps) (use assms(1,3) pk in \<open>simp add: Let_def\<close>)
  have tA: "tokens ?stA = cls # rest" using assms(2) by simp
  have rB: "readStmt ?stA opts = ((ERROR, None), ?stB)"
    by (rule readStmt_block_close[OF tA assms(4,5)])
  have eB: "errors ?stB = errors st1 @ [stray_close_error (tpos cls)]"
    using assms(2)
    by (simp add: unexpectedTokenCustom_def addError_def stray_close_error_def next_tok_def
          TKN_defs)
  have tB: "tokens ?stB = rest" using tA by simp
  have w: "within rest (errors st1 @ [stray_close_error (tpos cls)]) ?stB"
    unfolding within_def eB tB by simp
  from readStatementList_loop_step(1)[OF rB, where res = "res @ [stmt]" and status = status]
       readStatementList_loop_step(2)[OF rB, where res = "res @ [stmt]" and status = status]
       readStatementList_loop_step(3)[OF rB w, where res = "res @ [stmt]" and status = status]
  show ?thesis unfolding eq by (simp add: within_def)
qed


theorem trailing_separator_witness:
  "fst (fst (readStatementList_loop (StateManager (drop 4 trailing_sep_tokens))
              \<lparr>pureOnly = False\<rparr> [] OK)) \<noteq> OK
   \<and> prefix [Some (Assign True (tok Identifier ''Y'' 0 14)
                 (Some (EIdent (tok Identifier ''X'' 0 19)))), None]
        (snd (fst (readStatementList_loop (StateManager (drop 4 trailing_sep_tokens))
                    \<lparr>pureOnly = False\<rparr> [] OK)))
   \<and> prefix [stray_close_error \<lparr>row = 0, col = 22\<rparr>]
        (errors (snd (readStatementList_loop (StateManager (drop 4 trailing_sep_tokens))
                       \<lparr>pureOnly = False\<rparr> [] OK)))
   \<and> suffix (tokens (snd (readStatementList_loop (StateManager (drop 4 trailing_sep_tokens))
                             \<lparr>pureOnly = False\<rparr> [] OK)))
        [tok Expression ''write'' 0 24, tok Identifier ''Y'' 0 30]"
proof -
  let ?opts = "\<lparr>pureOnly = False\<rparr>"
  let ?st1 = "\<lparr>tokens = [tok Symbol '';'' 0 20, tok Symbol ''}'' 0 22,
                         tok Expression ''write'' 0 24, tok Identifier ''Y'' 0 30],
               pos = \<lparr>row = 0, col = 19\<rparr>,
               lastToken = Some (tok Identifier ''X'' 0 19), errors = []\<rparr>"
  have 1: "readStmt (StateManager (drop 4 trailing_sep_tokens)) ?opts =
             ((OK, Some (Assign True (tok Identifier ''Y'' 0 14)
                     (Some (EIdent (tok Identifier ''X'' 0 19))))), ?st1)"
    by code_simp
  have 2: "tokens ?st1 = tok Symbol '';'' 0 20 # tok Symbol ''}'' 0 22 #
             [tok Expression ''write'' 0 24, tok Identifier ''Y'' 0 30]" by simp
  have 3: "tvalue (tok Symbol '';'' 0 20) = Str TKN_SEP" by (simp add: TKN_defs)
  have 4: "tvalue (tok Symbol ''}'' 0 22) = Str TKN_BLOCK_CLS" by (simp add: TKN_defs)
  have 5: "ttype (tok Symbol ''}'' 0 22) \<noteq> Identifier" by simp
  from trailing_separator[OF 1 2 3 4 5, of "[]" OK] show ?thesis by simp
qed


subsection \<open>The caller's token list\<close>

lemma within_errors_update [simp]:
  "within T E st \<Longrightarrow> within T E (st\<lparr>errors := addError (errors st) p m\<rparr>)"
  "within T E st \<Longrightarrow> within T E (st\<lparr>errors := em_unexpectedToken (errors st) p a ex\<rparr>)"
  "within T E st \<Longrightarrow>
     within T E (st\<lparr>errors := em_unexpectedToken (addError (errors st) p m) p' a ex\<rparr>)"
  by (simp_all add: within_def)

lemma within_readInput [simp]: "within T E st \<Longrightarrow> within T E (snd (readInput st))"
  by (simp add: readInput_def split: option.splits)

lemma within_readRead [simp]: "within T E st \<Longrightarrow> within T E (snd (readRead st))"
  by (simp add: readRead_def split: option.splits)

lemma within_readProgramIntro [simp]:
  "within T E st \<Longrightarrow> within T E (snd (readProgramIntro st))"
  by (simp add: readProgramIntro_def split_beta Let_def del: errors_next_tok
        split: option.splits)

lemma within_readProgramOutro [simp]:
  "within T E st \<Longrightarrow> within T E (snd (readProgramOutro st))"
  by (simp add: readProgramOutro_def split_beta Let_def split: option.splits)


lemma errors_unexpectedTokenCustom [simp]: "errors (unexpectedTokenCustom st a m) \<noteq> []"
  by (simp add: unexpectedTokenCustom_def addError_def Let_def)

lemma snd_if_pair: "snd (if c then (a, s) else (b, s)) = s"
  by simp

lemma readProgram_state:
  "snd (readProgram st opts) =
     (let i = readProgramIntro st; b = readBlock (snd i) opts; ou = readProgramOutro (snd b)
      in if fst (fst i) = EOI then snd i
         else if fst (fst b) = EOI then snd b
         else (case peek (snd ou) of
                 None \<Rightarrow> snd (next_tok (snd ou))
               | Some final \<Rightarrow>
                   unexpectedTokenCustom (snd (next_tok (snd ou))) (Some (tvalue final))
                     ''Expected end of input''))"
  unfolding readProgram_def split_beta Let_def snd_if_pair
  by (simp split: option.splits)

lemma readProgram_complete:
  assumes "prog_complete (fst (readProgram st opts))"
  shows "fst (fst (readProgramIntro st)) = OK"
    and "fst (fst (readBlock (snd (readProgramIntro st)) opts)) = OK"
  using assms unfolding readProgram_def split_beta Let_def
  by (auto split: if_splits option.splits)

lemma readProgram_drains:
  assumes "prog_complete (fst (readProgram st opts))" and "errors (snd (readProgram st opts)) = []"
  shows "tokens (snd (readProgram st opts)) = []"
proof -
  let ?i = "readProgramIntro st"
  let ?b = "readBlock (snd ?i) opts"
  let ?o = "readProgramOutro (snd ?b)"
  note c = readProgram_complete[OF assms(1)]
  show ?thesis
  proof (cases "peek (snd ?o)")
    case None
    then have "tokens (snd ?o) = []" by (simp add: peek_def split: list.splits)
    with c None show ?thesis
      by (simp add: readProgram_state Let_def)
  next
    case (Some final)
    with c assms(2) show ?thesis
      by (simp add: readProgram_state Let_def)
  qed
qed

lemma within_readProgram: "within T E st \<Longrightarrow> within T E (snd (readProgram st opts))"
  by (simp add: readProgram_state Let_def parse_within(3) split: option.splits)

definition copy_tokens :: "token list" where
  "copy_tokens =
    [tok Identifier ''copy'' 0 0,
     tok Expression ''read'' 0 5,
     tok Identifier ''X'' 0 10,
     tok Symbol ''{'' 0 12,
     tok Identifier ''Y'' 0 14,
     tok Symbol '':='' 0 16,
     tok Identifier ''X'' 0 19,
     tok Symbol ''}'' 0 21,
     tok Expression ''write'' 0 23,
     tok Identifier ''Y'' 0 29]"


text \<open>
  Claim C2, as stated: parsing the same token list repeatedly gives the same result and the
  caller's list is unchanged. The state manager keeps the caller's array and shifts the
  tokens out of it. After parsing \<open>copy read X { Y := X } write Y\<close>, which gives a complete
  program and no error, the caller's list is empty, and the second call on it returns a
  partial program and the error \<open>Missing program name\<close>.
\<close>

theorem second_parse_counterexample:
  "parser copy_tokens None =
     ((\<lparr>prog_complete = True,
        prog_input = Some (tok Identifier ''X'' 0 10),
        prog_output = Some (tok Identifier ''Y'' 0 29),
        prog_name = Some (tok Identifier ''copy'' 0 0),
        prog_body = [Some (Assign True (tok Identifier ''Y'' 0 14)
                       (Some (EIdent (tok Identifier ''X'' 0 19))))]\<rparr>,
       []),
      [])
   \<and> snd (parser copy_tokens None) \<noteq> copy_tokens
   \<and> parser (snd (parser copy_tokens None)) None =
     ((\<lparr>prog_complete = False, prog_input = None, prog_output = None, prog_name = None,
        prog_body = []\<rparr>,
       [\<lparr>position = \<lparr>row = 0, col = 0\<rparr>,
         message = ''Unexpected end of input: Missing program name''\<rparr>]),
      [])"
  by code_simp

text \<open>
  Claim C2, amended: the result of \<open>parser\<close> is a function of the contents of the token list
  and of the options, and the only change to the caller's list is that tokens are taken from
  its front: after the call the list is a final segment of what it was, and it is empty when
  the program returned is complete and no error was recorded.
\<close>

theorem parser_takes_from_callers_list:
  "suffix (snd (parser T props)) T
   \<and> (prog_complete (fst (fst (parser T props))) \<and> snd (fst (parser T props)) = []
        \<longrightarrow> snd (parser T props) = [])"
proof -
  have "within T [] (StateManager T)" by (simp add: within_def StateManager_def)
  from within_readProgram[OF this] have "suffix (snd (parser T props)) T"
    by (simp add: parser_def Let_def split_beta within_def)
  moreover have "prog_complete (fst (fst (parser T props))) \<and> snd (fst (parser T props)) = []
        \<longrightarrow> snd (parser T props) = []"
    using readProgram_drains by (simp add: parser_def Let_def split_beta)
  ultimately show ?thesis by blast
qed

theorem parser_takes_from_callers_list_witness:
  "suffix (snd (parser copy_tokens None)) copy_tokens
   \<and> prog_complete (fst (fst (parser copy_tokens None)))
   \<and> snd (fst (parser copy_tokens None)) = []
   \<and> snd (parser copy_tokens None) = []"
proof -
  have "prog_complete (fst (fst (parser copy_tokens None)))"
    and "snd (fst (parser copy_tokens None)) = []" by code_simp+
  with parser_takes_from_callers_list[of copy_tokens None] show ?thesis by blast
qed



subsection \<open>Completeness of the tree and the error list\<close>

text \<open>
  Every node has \<open>complete = true\<close>: identifiers and tree literals carry no flag; any other
  node must have its flag set, every child slot filled, and every child complete in the
  same sense. For the program, the root flag, the three identifiers and the body.
\<close>

fun expr_all_complete :: "expr \<Rightarrow> bool" where
  "expr_all_complete (EIdent t) = True"
| "expr_all_complete (ETree t) = True"
| "expr_all_complete (EOp c opr args) =
     (c \<and> list_all (\<lambda>a. case a of None \<Rightarrow> False | Some e \<Rightarrow> expr_all_complete e) args)"

fun expr_slot_complete :: "expr option \<Rightarrow> bool" where
  "expr_slot_complete None = False"
| "expr_slot_complete (Some e) = expr_all_complete e"

fun cmd_all_complete :: "cmd \<Rightarrow> bool"
  and case_all_complete :: "switch_case \<Rightarrow> bool"
  and default_all_complete :: "switch_default \<Rightarrow> bool" where
  "cmd_all_complete (Assign c t a) = (c \<and> expr_slot_complete a)"
| "cmd_all_complete (Cond c e ifs elses) =
     (c \<and> expr_slot_complete e
        \<and> list_all (\<lambda>x. case x of None \<Rightarrow> False | Some s \<Rightarrow> cmd_all_complete s) ifs
        \<and> list_all (\<lambda>x. case x of None \<Rightarrow> False | Some s \<Rightarrow> cmd_all_complete s) elses)"
| "cmd_all_complete (Loop c e body) =
     (c \<and> expr_slot_complete e
        \<and> list_all (\<lambda>x. case x of None \<Rightarrow> False | Some s \<Rightarrow> cmd_all_complete s) body)"
| "cmd_all_complete (Switch c e cases d) =
     (c \<and> expr_slot_complete e \<and> list_all case_all_complete cases \<and> default_all_complete d)"
| "case_all_complete (SwitchCase c e body) =
     (c \<and> expr_all_complete e
        \<and> list_all (\<lambda>x. case x of None \<Rightarrow> False | Some s \<Rightarrow> cmd_all_complete s) body)"
| "default_all_complete (SwitchDefault c body) =
     (c \<and> list_all (\<lambda>x. case x of None \<Rightarrow> False | Some s \<Rightarrow> cmd_all_complete s) body)"

fun cmd_slot_complete :: "cmd option \<Rightarrow> bool" where
  "cmd_slot_complete None = False"
| "cmd_slot_complete (Some c) = cmd_all_complete c"

definition prog_all_complete :: "prog \<Rightarrow> bool" where
  "prog_all_complete p \<longleftrightarrow>
     prog_complete p \<and> prog_name p \<noteq> None \<and> prog_input p \<noteq> None \<and> prog_output p \<noteq> None
     \<and> list_all cmd_slot_complete (prog_body p)"



text \<open>
  Two facts about \<open>_readExpr\<close>. The flag of the expression it returns is sound: when it
  is an identifier, a tree literal or has \<open>complete = true\<close>, every node below is complete.
  And when no error has been recorded after it and a token is left, it has returned such an
  expression: a partial expression without an error means the tokens ran out.
\<close>

lemma within_errors_nil: "within T E st' \<Longrightarrow> errors st' = [] \<Longrightarrow> E = []"
  by (simp add: within_def)

lemma within_tokens_nil: "within [] E st' \<Longrightarrow> tokens st' = []"
  by (simp add: within_def)

lemma errors_recorded [simp]:
  "errors (unexpectedEOI st e) \<noteq> []"
  "errors (unexpectedToken st a e) \<noteq> []"
  "errors (unexpectedValue st ty a e) \<noteq> []"
  "errors (unexpectedEOICustom st m) \<noteq> []"
  "errors (st_addError st m) \<noteq> []"
  by (simp_all add: unexpectedEOI_def unexpectedToken_def unexpectedValue_def
      unexpectedEOICustom_def st_addError_def em_unexpectedEOI_def em_unexpectedToken_def
      em_unexpectedValue_def addError_def Let_def)

lemma errors_expect: "errors (snd (expect st e)) = [] \<Longrightarrow> errors st = []"
  using within_expect[OF within_refl, of st e] by (rule within_errors_nil)

lemma errors_consumeUntil: "errors (snd (consumeUntil st e r)) = [] \<Longrightarrow> errors st = []"
  using within_consumeUntil[OF within_refl, of st e r] by (rule within_errors_nil)

lemma errors_readExpr: "errors (snd (readExpr st opts)) = [] \<Longrightarrow> errors st = []"
  using readExpr_within[OF within_refl, of st opts] by (rule within_errors_nil)

lemma errors_parse:
  "errors (snd (readStmt st opts)) = [] \<Longrightarrow> errors st = []"
  "errors (snd (readElse st opts)) = [] \<Longrightarrow> errors st = []"
  "errors (snd (readBlock st opts)) = [] \<Longrightarrow> errors st = []"
  "errors (snd (readStatementList_loop st opts res status)) = [] \<Longrightarrow> errors st = []"
  "errors (snd (readCase st opts)) = [] \<Longrightarrow> errors st = []"
  "errors (snd (readSwitch st opts)) = [] \<Longrightarrow> errors st = []"
  "errors (snd (readSwitch_loop st opts status cases dflt)) = [] \<Longrightarrow> errors st = []"
  using parse_within[OF within_refl, of st] by (blast intro: within_errors_nil)+

lemma tokens_consumeUntil_nil: "tokens st = [] \<Longrightarrow> tokens (snd (consumeUntil st e r)) = []"
  using within_consumeUntil[OF within_refl, of st e r] by (auto intro: within_tokens_nil)

lemma tokens_readExpr_nil: "tokens st = [] \<Longrightarrow> tokens (snd (readExpr st opts)) = []"
  using readExpr_within[OF within_refl, of st opts] by (auto intro: within_tokens_nil)

lemma expect_clean:
  assumes "errors (snd (expect st e)) = []"
  shows "fst (fst (expect st e)) = OK" and "tokens st \<noteq> []"
  using assms by (cases "tokens st"; auto simp: expect_def peek_def split_beta split: if_splits)+

lemma leaf_or_complete_op: "leaf_or_complete e \<Longrightarrow> \<not> incomplete_op e"
  by (cases e) simp_all

lemma op_leaf: "\<not> incomplete_op e \<Longrightarrow> leaf_or_complete e"
  by (cases e) simp_all

lemma readExpr_cases:
  assumes "tokens st = first # ts"
  shows "tvalue first = Str TKN_PREN_OPN \<Longrightarrow>
           readExpr st opts =
             (let r = readExpr (snd (next_tok st)) opts
              in case peek (snd r) of
                   None \<Rightarrow> (fst r, unexpectedEOI (snd (next_tok (snd r))) [TKN_PREN_CLS])
                 | Some close \<Rightarrow>
                     if tvalue close = Str TKN_PREN_CLS then (fst r, snd (next_tok (snd r)))
                     else (fst r, unexpectedToken (snd (next_tok (snd r))) (Some (tvalue close))
                                    [TKN_PREN_CLS]))"
    and "tvalue first \<noteq> Str TKN_PREN_OPN \<Longrightarrow> ttype first = Operation \<Longrightarrow>
         tvalue first = Str TKN_HD \<or> tvalue first = Str TKN_TL \<Longrightarrow>
           readExpr st opts =
             (let r = readExpr (snd (next_tok st)) opts
              in case fst r of
                   None \<Rightarrow> (Some (EOp False first [None]), snd r)
                 | Some arg \<Rightarrow>
                     if leaf_or_complete arg then (Some (EOp True first [Some arg]), snd r)
                     else (Some (EOp False first [Some arg]), snd r))"
    and "tvalue first \<noteq> Str TKN_PREN_OPN \<Longrightarrow> ttype first = Operation \<Longrightarrow>
         \<not> (tvalue first = Str TKN_HD \<or> tvalue first = Str TKN_TL) \<Longrightarrow>
           readExpr st opts =
             (let l = readExpr (snd (next_tok st)) opts; r = readExpr (snd l) opts
              in if fst l = None \<or> fst r = None
                    \<or> incomplete_op (the (fst l)) \<or> incomplete_op (the (fst r))
                 then (Some (EOp False first [fst l, fst r]), snd r)
                 else (Some (EOp True first [fst l, fst r]), snd r))"
    and "tvalue first \<noteq> Str TKN_PREN_OPN \<Longrightarrow> ttype first \<noteq> Operation \<Longrightarrow>
           readExpr st opts =
             (if ttype first = Identifier then (Some (EIdent first), snd (next_tok st))
              else if \<not> pureOnly opts \<and> ttype first = Number then
                (Some (ETree (numToTree (case tvalue first of Num n \<Rightarrow> n | Str s \<Rightarrow> 0))),
                 snd (next_tok st))
              else (None, unexpectedTokenCustom (snd (next_tok st)) (Some (tvalue first))
                            ''Expected an expression or an identifier''))"
proof -
  have pk: "peek st = Some first" using assms by (simp add: peek_def)
  show "tvalue first = Str TKN_PREN_OPN \<Longrightarrow>
           readExpr st opts =
             (let r = readExpr (snd (next_tok st)) opts
              in case peek (snd r) of
                   None \<Rightarrow> (fst r, unexpectedEOI (snd (next_tok (snd r))) [TKN_PREN_CLS])
                 | Some close \<Rightarrow>
                     if tvalue close = Str TKN_PREN_CLS then (fst r, snd (next_tok (snd r)))
                     else (fst r, unexpectedToken (snd (next_tok (snd r))) (Some (tvalue close))
                                    [TKN_PREN_CLS]))"
    by (subst readExpr.simps) (use pk in \<open>simp add: split_beta Let_def split: option.splits\<close>)
  show "tvalue first \<noteq> Str TKN_PREN_OPN \<Longrightarrow> ttype first = Operation \<Longrightarrow>
         tvalue first = Str TKN_HD \<or> tvalue first = Str TKN_TL \<Longrightarrow>
           readExpr st opts =
             (let r = readExpr (snd (next_tok st)) opts
              in case fst r of
                   None \<Rightarrow> (Some (EOp False first [None]), snd r)
                 | Some arg \<Rightarrow>
                     if leaf_or_complete arg then (Some (EOp True first [Some arg]), snd r)
                     else (Some (EOp False first [Some arg]), snd r))"
    by (subst readExpr.simps) (use pk in \<open>simp add: split_beta Let_def split: option.splits\<close>)
  show "tvalue first \<noteq> Str TKN_PREN_OPN \<Longrightarrow> ttype first = Operation \<Longrightarrow>
         \<not> (tvalue first = Str TKN_HD \<or> tvalue first = Str TKN_TL) \<Longrightarrow>
           readExpr st opts =
             (let l = readExpr (snd (next_tok st)) opts; r = readExpr (snd l) opts
              in if fst l = None \<or> fst r = None
                    \<or> incomplete_op (the (fst l)) \<or> incomplete_op (the (fst r))
                 then (Some (EOp False first [fst l, fst r]), snd r)
                 else (Some (EOp True first [fst l, fst r]), snd r))"
    by (subst readExpr.simps) (use pk in \<open>simp add: split_beta Let_def\<close>)
  show "tvalue first \<noteq> Str TKN_PREN_OPN \<Longrightarrow> ttype first \<noteq> Operation \<Longrightarrow>
           readExpr st opts =
             (if ttype first = Identifier then (Some (EIdent first), snd (next_tok st))
              else if \<not> pureOnly opts \<and> ttype first = Number then
                (Some (ETree (numToTree (case tvalue first of Num n \<Rightarrow> n | Str s \<Rightarrow> 0))),
                 snd (next_tok st))
              else (None, unexpectedTokenCustom (snd (next_tok st)) (Some (tvalue first))
                            ''Expected an expression or an identifier''))"
    by (subst readExpr.simps) (use pk in \<open>simp add: split_beta Let_def\<close>)
qed

lemma readExpr_Nil: "tokens st = [] \<Longrightarrow> readExpr st opts = (None, snd (next_tok st))"
  by (subst readExpr.simps) (simp add: split_beta peek_def)

lemma readExpr_sound:
  "fst (readExpr st opts) = Some e \<Longrightarrow> leaf_or_complete e \<Longrightarrow> expr_all_complete e"
proof (induction st opts arbitrary: e rule: readExpr.induct)
  case (1 st opts)
  note IH = 1(1)[OF prod.collapse] 1(2)[OF prod.collapse] 1(3)[OF prod.collapse]
            1(4)[OF prod.collapse _ _ _ _ prod.collapse]
  note r = 1(5) and c = 1(6)
  show ?case
  proof (cases "tokens st")
    case Nil
    with r show ?thesis by (simp add: readExpr_Nil)
  next
    case (Cons first ts)
    then have pk: "peek st = Some first" by (simp add: peek_def)
    note IH' = IH[unfolded fst_next_tok, OF pk]
    note eqs = readExpr_cases[OF Cons, of opts]
    let ?st1 = "snd (next_tok st)"
    consider (paren) "tvalue first = Str TKN_PREN_OPN"
      | (hdtl) "tvalue first \<noteq> Str TKN_PREN_OPN" "ttype first = Operation"
               "tvalue first = Str TKN_HD \<or> tvalue first = Str TKN_TL"
      | (cons) "tvalue first \<noteq> Str TKN_PREN_OPN" "ttype first = Operation"
               "\<not> (tvalue first = Str TKN_HD \<or> tvalue first = Str TKN_TL)"
      | (other) "tvalue first \<noteq> Str TKN_PREN_OPN" "ttype first \<noteq> Operation"
      by blast
    then show ?thesis
    proof cases
      case paren
      from r have "fst (readExpr ?st1 opts) = Some e"
        unfolding eqs(1)[OF paren] by (simp add: Let_def split: option.splits if_splits)
      from IH'(1)[OF paren this c] show ?thesis .
    next
      case hdtl
      from r c obtain arg where "fst (readExpr ?st1 opts) = Some arg" "leaf_or_complete arg"
        "e = EOp True first [Some arg]"
        unfolding eqs(2)[OF hdtl] by (auto simp: Let_def split: option.splits if_splits)
      with IH'(2)[OF hdtl, of arg] show ?thesis by simp
    next
      case cons
      let ?st2 = "snd (readExpr ?st1 opts)"
      from r c obtain l r' where lr: "fst (readExpr ?st1 opts) = Some l"
        "fst (readExpr ?st2 opts) = Some r'" "\<not> incomplete_op l" "\<not> incomplete_op r'"
        "e = EOp True first [Some l, Some r']"
        unfolding eqs(3)[OF cons] by (auto simp: Let_def split: if_splits)
      have "leaf_or_complete l" "leaf_or_complete r'" using lr(3,4)
        by (simp_all add: op_leaf)
      with IH'(3)[OF cons, of l] IH'(4)[OF cons, of r'] lr show ?thesis by simp
    next
      case other
      from r show ?thesis
        unfolding eqs(4)[OF other] by (auto split: if_splits)
    qed
  qed
qed

lemma readExpr_clean:
  "errors (snd (readExpr st opts)) = [] \<Longrightarrow> tokens (snd (readExpr st opts)) \<noteq> [] \<Longrightarrow>
   \<exists>e. fst (readExpr st opts) = Some e \<and> leaf_or_complete e"
proof (induction st opts rule: readExpr.induct)
  case (1 st opts)
  note IH = 1(1)[OF prod.collapse] 1(2)[OF prod.collapse] 1(3)[OF prod.collapse]
            1(4)[OF prod.collapse _ _ _ _ prod.collapse]
  note e = 1(5) and t = 1(6)
  show ?case
  proof (cases "tokens st")
    case Nil
    with t show ?thesis by (simp add: readExpr_Nil)
  next
    case (Cons first ts)
    then have pk: "peek st = Some first" by (simp add: peek_def)
    note IH' = IH[unfolded fst_next_tok, OF pk]
    note eqs = readExpr_cases[OF Cons, of opts]
    let ?st1 = "snd (next_tok st)"
    let ?st2 = "snd (readExpr ?st1 opts)"
    consider (paren) "tvalue first = Str TKN_PREN_OPN"
      | (hdtl) "tvalue first \<noteq> Str TKN_PREN_OPN" "ttype first = Operation"
               "tvalue first = Str TKN_HD \<or> tvalue first = Str TKN_TL"
      | (cons) "tvalue first \<noteq> Str TKN_PREN_OPN" "ttype first = Operation"
               "\<not> (tvalue first = Str TKN_HD \<or> tvalue first = Str TKN_TL)"
      | (other) "tvalue first \<noteq> Str TKN_PREN_OPN" "ttype first \<noteq> Operation"
      by blast
    then show ?thesis
    proof cases
      case paren
      note eq = eqs(1)[OF paren]
      from e have e2: "errors ?st2 = []" and t2: "tokens ?st2 \<noteq> []"
        unfolding eq by (auto simp: Let_def peek_def split: option.splits if_splits list.splits)
      from IH'(1)[OF paren e2 t2] show ?thesis
        unfolding eq by (auto simp: Let_def split: option.splits)
    next
      case hdtl
      note eq = eqs(2)[OF hdtl]
      from e t have e2: "errors ?st2 = []" and t2: "tokens ?st2 \<noteq> []"
        unfolding eq by (auto simp: Let_def split: option.splits if_splits)
      from IH'(2)[OF hdtl e2 t2] show ?thesis
        unfolding eq by (auto simp: Let_def split: option.splits)
    next
      case cons
      let ?st3 = "snd (readExpr ?st2 opts)"
      note eq = eqs(3)[OF cons]
      from e t have e3: "errors ?st3 = []" and t3: "tokens ?st3 \<noteq> []"
        unfolding eq by (auto simp: Let_def split: if_splits)
      from e3 have e2: "errors ?st2 = []" by (rule errors_readExpr)
      from t3 have t2: "tokens ?st2 \<noteq> []" using tokens_readExpr_nil by blast
      from IH'(3)[OF cons e2 t2] IH'(4)[OF cons e3 t3] show ?thesis
        unfolding eq by (auto simp: Let_def dest: leaf_or_complete_op)
    next
      case other
      from e show ?thesis
        unfolding eqs(4)[OF other] by (auto split: if_splits)
    qed
  qed
qed



text \<open>
  The statement parsers on a run that has recorded no error: a result with status \<open>OK\<close>
  has every node complete, and any other status means the tokens ran out. The two loops
  carry the same property of what they have collected so far.
\<close>

lemma slot_complete_eq [simp]:
  "(\<lambda>x. case x of None \<Rightarrow> False | Some s \<Rightarrow> cmd_all_complete s) = cmd_slot_complete"
  "(\<lambda>a. case a of None \<Rightarrow> False | Some e \<Rightarrow> expr_all_complete e) = expr_slot_complete"
  by (rule ext, simp split: option.splits)+

fun clause_all_complete :: "switch_clause \<Rightarrow> bool" where
  "clause_all_complete (ClauseCase c) = case_all_complete c"
| "clause_all_complete (ClauseDefault d) = default_all_complete d"

definition stmt_res_ok :: "(ParseStatus \<times> cmd option) \<times> state \<Rightarrow> bool" where
  "stmt_res_ok r \<longleftrightarrow>
     (fst (fst r) = OK \<longrightarrow> cmd_slot_complete (snd (fst r)))
     \<and> (fst (fst r) \<noteq> OK \<longrightarrow> tokens (snd r) = [])"

definition block_res_ok :: "(ParseStatus \<times> cmd option list) \<times> state \<Rightarrow> bool" where
  "block_res_ok r \<longleftrightarrow>
     (fst (fst r) = OK \<longrightarrow> list_all cmd_slot_complete (snd (fst r)))
     \<and> (fst (fst r) \<noteq> OK \<longrightarrow> tokens (snd r) = [])"

definition case_res_ok :: "(ParseStatus \<times> switch_clause option) \<times> state \<Rightarrow> bool" where
  "case_res_ok r \<longleftrightarrow>
     (fst (fst r) = OK \<longrightarrow> (\<exists>cl. snd (fst r) = Some cl \<and> clause_all_complete cl))
     \<and> (fst (fst r) \<noteq> OK \<longrightarrow> tokens (snd r) = [])"

definition cases_ok :: "state \<Rightarrow> switch_case list \<Rightarrow> switch_default option \<Rightarrow> bool" where
  "cases_ok st cases dflt \<longleftrightarrow>
     (tokens st \<noteq> [] \<longrightarrow>
        list_all case_all_complete cases \<and> (\<forall>d. dflt = Some d \<longrightarrow> default_all_complete d))"

lemma readElse_nonempty: "errors (snd (readElse st opts)) = [] \<Longrightarrow> tokens st \<noteq> []"
  by (subst (asm) readElse.simps) (auto simp: peek_def split: list.splits)

lemma readBlock_step:
  "within T E (snd (expect st [TKN_BLOCK_OPN])) \<Longrightarrow> within T E (snd (readBlock st opts))"
  by (subst readBlock.simps) (simp add: split_beta parse_within(4) split: option.splits)

lemma readBlock_nonempty:
  assumes "errors (snd (readBlock st opts)) = []" shows "tokens st \<noteq> []"
proof -
  from readBlock_step[OF within_refl] assms
  have "errors (snd (expect st [TKN_BLOCK_OPN])) = []" by (rule within_errors_nil)
  then show ?thesis by (rule expect_clean)
qed


lemma parse_clean:
  shows "errors (snd (readStmt st opts)) = [] \<longrightarrow> stmt_res_ok (readStmt st opts)"
    and "errors (snd (readElse st2 opts2)) = [] \<longrightarrow> block_res_ok (readElse st2 opts2)"
    and "errors (snd (readBlock st3 opts3)) = [] \<longrightarrow> block_res_ok (readBlock st3 opts3)"
    and "errors (snd (readStatementList_loop st4 opts4 res4 status4)) = [] \<longrightarrow>
           status4 = OK \<longrightarrow> list_all cmd_slot_complete res4 \<longrightarrow>
           block_res_ok (readStatementList_loop st4 opts4 res4 status4)"
    and "errors (snd (readCase st5 opts5)) = [] \<longrightarrow> case_res_ok (readCase st5 opts5)"
    and "errors (snd (readSwitch st6 opts6)) = [] \<longrightarrow> stmt_res_ok (readSwitch st6 opts6)"
    and "errors (snd (readSwitch_loop st7 opts7 status7 cases7 dflt7)) = [] \<longrightarrow>
           status7 = OK \<longrightarrow> cases_ok st7 cases7 dflt7 \<longrightarrow>
           fst (fst (readSwitch_loop st7 opts7 status7 cases7 dflt7)) = OK
           \<and> cases_ok (snd (readSwitch_loop st7 opts7 status7 cases7 dflt7))
                (fst (snd (fst (readSwitch_loop st7 opts7 status7 cases7 dflt7))))
                (snd (snd (fst (readSwitch_loop st7 opts7 status7 cases7 dflt7))))"
proof (induct st opts and st2 opts2 and st3 opts3 and st4 opts4 res4 status4 and st5 opts5
         and st6 opts6 and st7 opts7 status7 cases7 dflt7 rule: parse_induct)
  case (1 st opts)
  show ?case
  proof (cases "tokens st")
    case Nil
    have "readStmt st opts = ((EOI, None), snd (next_tok st))"
      by (subst readStmt.simps) (use Nil in \<open>simp add: split_beta peek_def\<close>)
    with Nil show ?thesis by (simp add: stmt_res_ok_def)
  next
    case (Cons first ts)
    then have pk: "fst (next_tok st) = Some first" by (simp add: peek_def)
    let ?st1 = "snd (next_tok st)"
    consider (cond) "tvalue first = Str TKN_IF"
      | (loop) "tvalue first \<noteq> Str TKN_IF" "tvalue first = Str TKN_WHILE"
      | (assign) "tvalue first \<noteq> Str TKN_IF" "tvalue first \<noteq> Str TKN_WHILE"
                 "ttype first = Identifier"
      | (switch) "tvalue first \<noteq> Str TKN_IF" "tvalue first \<noteq> Str TKN_WHILE"
                 "ttype first \<noteq> Identifier" "\<not> pureOnly opts \<and> tvalue first = Str TKN_SWITCH"
      | (other) "tvalue first \<noteq> Str TKN_IF" "tvalue first \<noteq> Str TKN_WHILE"
                 "ttype first \<noteq> Identifier" "\<not> (\<not> pureOnly opts \<and> tvalue first = Str TKN_SWITCH)"
      by blast
    then show ?thesis
    proof cases
      case cond
      let ?c = "readExpr ?st1 opts"
      let ?b = "readBlock (snd ?c) opts"
      let ?e = "readElse (snd ?b) opts"
      note a = 1(1)[OF prod.collapse pk cond prod.collapse]
      note b = 1(2)[OF prod.collapse pk cond prod.collapse prod.collapse prod.collapse]
      have eq: "readStmt st opts =
                  (if fst ?c \<noteq> None \<and> leaf_or_complete (the (fst ?c))
                      \<and> fst (fst ?b) = OK \<and> fst (fst ?e) = OK
                   then ((OK, Some (Cond True (fst ?c) (snd (fst ?b)) (snd (fst ?e)))), snd ?e)
                   else ((ERROR, Some (Cond False (fst ?c) (snd (fst ?b)) (snd (fst ?e)))), snd ?e))"
        by (subst readStmt.simps) (use cond Cons in \<open>simp add: split_beta peek_def\<close>)
      show ?thesis
      proof (rule impI)
        assume "errors (snd (readStmt st opts)) = []"
        then have E: "errors (snd ?e) = []" unfolding eq by (simp split: if_splits)
        then have E3: "errors (snd ?b) = []" by (rule errors_parse)
        then have E2: "errors (snd ?c) = []" by (rule errors_parse)
        from E have T3: "tokens (snd ?b) \<noteq> []" by (rule readElse_nonempty)
        from E3 have T2: "tokens (snd ?c) \<noteq> []" by (rule readBlock_nonempty)
        from readExpr_clean[OF E2 T2] obtain x where x: "fst ?c = Some x" "leaf_or_complete x"
          by blast
        then have xc: "expr_all_complete x" by (rule readExpr_sound)
        from a E3 T3 have B: "fst (fst ?b) = OK" "list_all cmd_slot_complete (snd (fst ?b))"
          by (auto simp: block_res_ok_def)
        from b E have "block_res_ok ?e" by blast
        with x xc B show "stmt_res_ok (readStmt st opts)"
          unfolding eq by (auto simp: stmt_res_ok_def block_res_ok_def)
      qed
    next
      case loop
      let ?c = "readExpr ?st1 opts"
      let ?b = "readBlock (snd ?c) opts"
      note a = 1(3)[OF prod.collapse pk loop prod.collapse]
      have eq: "readStmt st opts =
                  (if fst (fst ?b) = OK \<and> fst ?c \<noteq> None
                   then ((OK, Some (Loop True (fst ?c) (snd (fst ?b)))), snd ?b)
                   else ((if fst (fst ?b) = EOI then EOI else ERROR,
                          Some (Loop False (fst ?c) (snd (fst ?b)))), snd ?b))"
        by (subst readStmt.simps) (use loop Cons in \<open>simp add: split_beta peek_def\<close>)
      show ?thesis
      proof (rule impI)
        assume "errors (snd (readStmt st opts)) = []"
        then have E3: "errors (snd ?b) = []" unfolding eq by (simp split: if_splits)
        then have E2: "errors (snd ?c) = []" by (rule errors_parse)
        from E3 have T2: "tokens (snd ?c) \<noteq> []" by (rule readBlock_nonempty)
        from readExpr_clean[OF E2 T2] obtain x where x: "fst ?c = Some x" "leaf_or_complete x"
          by blast
        then have xc: "expr_all_complete x" by (rule readExpr_sound)
        from a E3 have "block_res_ok ?b" by blast
        with x xc show "stmt_res_ok (readStmt st opts)"
          unfolding eq by (auto simp: stmt_res_ok_def block_res_ok_def)
      qed
    next
      case assign
      let ?x = "expect ?st1 [TKN_ASSGN]"
      let ?v = "readExpr (snd ?x) opts"
      have eq: "readStmt st opts =
                  (if fst ?v \<noteq> None \<and> leaf_or_complete (the (fst ?v))
                   then ((OK, Some (Assign True first (fst ?v))), snd ?v)
                   else ((ERROR, Some (Assign False first (fst ?v))), snd ?v))"
        by (subst readStmt.simps) (use assign Cons in \<open>simp add: split_beta peek_def\<close>)
      show ?thesis
      proof (rule impI)
        assume "errors (snd (readStmt st opts)) = []"
        then have E: "errors (snd ?v) = []" unfolding eq by (simp split: if_splits)
        show "stmt_res_ok (readStmt st opts)"
        proof (cases "fst ?v \<noteq> None \<and> leaf_or_complete (the (fst ?v))")
          case True
          then obtain e where e: "fst ?v = Some e" "leaf_or_complete e" by auto
          then have "expr_all_complete e" by (rule readExpr_sound)
          with e show ?thesis unfolding eq by (simp add: stmt_res_ok_def)
        next
          case False
          have "tokens (snd ?v) = []"
          proof (rule ccontr)
            assume "tokens (snd ?v) \<noteq> []"
            from readExpr_clean[OF E this] False show False by auto
          qed
          with False show ?thesis unfolding eq by (auto simp: stmt_res_ok_def)
        qed
      qed
    next
      case switch
      note a = 1(4)[OF prod.collapse pk switch]
      have eq: "readStmt st opts = readSwitch ?st1 opts"
        by (subst readStmt.simps) (use switch Cons in \<open>simp add: split_beta peek_def\<close>)
      from a show ?thesis unfolding eq .
    next
      case other
      have eq: "readStmt st opts =
                  ((ERROR, None),
                   unexpectedTokenCustom ?st1 None
                     (''Expected '' @ TKN_IF @ '' '' @ TKN_WHILE @ '' or an assignment statement''))"
        by (subst readStmt.simps) (use other Cons in \<open>auto simp add: split_beta peek_def\<close>)
      show ?thesis unfolding eq by simp
    qed
  qed
next
  case (2 st opts)
  show ?case
  proof (cases "peek st")
    case None
    have "readElse st opts = ((EOI, []), unexpectedEOI st [TKN_BLOCK_CLS])"
      by (subst readElse.simps) (use None in simp)
    then show ?thesis by simp
  next
    case (Some t)
    show ?thesis
    proof (cases "tvalue t = Str TKN_ELSE")
      case True
      have "readElse st opts = readBlock (snd (next_tok st)) opts"
        by (subst readElse.simps) (use True Some in simp)
      with 2(1)[OF Some True] show ?thesis by simp
    next
      case False
      have "readElse st opts = ((OK, []), st)"
        by (subst readElse.simps) (use False Some in simp)
      then show ?thesis by (simp add: block_res_ok_def)
    qed
  qed
next
  case (3 st opts)
  let ?st1 = "snd (expect st [TKN_BLOCK_OPN])"
  show ?case
  proof (cases "peek ?st1")
    case None
    have "readBlock st opts = ((EOI, []), unexpectedEOI (snd (next_tok ?st1)) [TKN_BLOCK_CLS])"
      by (subst readBlock.simps) (use None in \<open>simp add: split_beta\<close>)
    then show ?thesis by simp
  next
    case (Some first)
    show ?thesis
    proof (cases "tvalue first = Str TKN_BLOCK_CLS")
      case True
      have "readBlock st opts = ((OK, []), snd (next_tok ?st1))"
        by (subst readBlock.simps) (use True Some in \<open>simp add: split_beta\<close>)
      then show ?thesis by (simp add: block_res_ok_def)
    next
      case False
      let ?l = "readStatementList_loop ?st1 opts [] OK"
      let ?y = "expect (snd ?l) [TKN_BLOCK_CLS]"
      note a = 3(1)[OF prod.collapse Some False]
      have eq: "readBlock st opts =
                  (if fst (fst ?l) = EOI then ((EOI, snd (fst ?l)), snd ?l)
                   else if fst (fst ?y) = EOI then ((EOI, snd (fst ?l)), snd ?y)
                   else if fst (fst ?l) = OK \<and> fst (fst ?y) = OK then ((OK, snd (fst ?l)), snd ?y)
                   else ((ERROR, snd (fst ?l)), snd ?y))"
        by (subst readBlock.simps) (use False Some in \<open>simp add: split_beta\<close>)
      show ?thesis
      proof (rule impI)
        assume E: "errors (snd (readBlock st opts)) = []"
        show "block_res_ok (readBlock st opts)"
        proof (cases "fst (fst ?l) = EOI")
          case True
          with E have "errors (snd ?l) = []" unfolding eq by simp
          with a have "block_res_ok ?l" by simp
          with True show ?thesis unfolding eq by (simp add: block_res_ok_def)
        next
          case F: False
          with E have Ey: "errors (snd ?y) = []" unfolding eq by (simp split: if_splits)
          then have El: "errors (snd ?l) = []" by (rule errors_expect)
          from expect_clean[OF Ey] have y: "fst (fst ?y) = OK" "tokens (snd ?l) \<noteq> []" .
          from a El have "block_res_ok ?l" by simp
          with y F show ?thesis unfolding eq by (auto simp add: block_res_ok_def)
        qed
      qed
    qed
  qed
next
  case (4 st opts res status)
  let ?r = "readStmt st opts"
  let ?st2 = "if fst (fst ?r) = ERROR
              then snd (consumeUntil (snd ?r) [TKN_BLOCK_CLS, TKN_SEP] []) else snd ?r"
  let ?status1 = "if fst (fst ?r) = ERROR then ERROR else status"
  let ?L = "readStatementList_loop st opts res status"
  have E2r: "errors ?st2 = [] \<Longrightarrow> errors (snd ?r) = []"
    by (auto dest: errors_consumeUntil split: if_splits)
  have ok: "fst (fst ?r) = OK \<and> cmd_slot_complete (snd (fst ?r))"
    if "errors ?st2 = []" "tokens ?st2 \<noteq> []" "fst (fst ?r) \<noteq> EOI"
  proof -
    from E2r[OF that(1)] 4(1) have s: "stmt_res_ok ?r" by simp
    have "fst (fst ?r) \<noteq> ERROR"
    proof
      assume er: "fst (fst ?r) = ERROR"
      with s have "tokens (snd ?r) = []" by (simp add: stmt_res_ok_def)
      with er that(2) show False by (simp add: tokens_consumeUntil_nil)
    qed
    with that(3) have "fst (fst ?r) = OK" by (cases "fst (fst ?r)") simp_all
    with s show ?thesis by (simp add: stmt_res_ok_def)
  qed
  show ?case
  proof (intro impI)
    assume E: "errors (snd ?L) = []" and st: "status = OK" and res: "list_all cmd_slot_complete res"
    show "block_res_ok ?L"
    proof (cases "fst (fst ?r) = EOI")
      case True
      have eq: "?L = ((EOI, res @ [snd (fst ?r)]), snd ?r)"
        by (subst readStatementList_loop.simps) (use True in \<open>simp add: split_beta\<close>)
      from E have "errors (snd ?r) = []" unfolding eq by simp
      with 4(1) True show ?thesis unfolding eq by (simp add: stmt_res_ok_def block_res_ok_def)
    next
      case False
      show ?thesis
      proof (cases "peek ?st2")
        case None
        have eq: "?L = ((EOI, res @ [snd (fst ?r)]),
                        unexpectedEOI (snd (next_tok ?st2)) [TKN_SEP, TKN_BLOCK_CLS])"
          by (subst readStatementList_loop.simps)
             (use False None in \<open>simp add: split_beta Let_def\<close>)
        from E show ?thesis unfolding eq by simp
      next
        case (Some nxt)
        then have T2: "tokens ?st2 \<noteq> []" by (auto simp: peek_def split: list.splits)
        show ?thesis
        proof (cases "tvalue nxt = Str TKN_SEP")
          case True
          note a = 4(2)[OF prod.collapse prod.collapse False refl refl Some True]
          have eq: "?L = readStatementList_loop (snd (next_tok ?st2)) opts
                           (res @ [snd (fst ?r)]) ?status1"
            by (subst readStatementList_loop.simps)
               (use False Some True in \<open>simp add: split_beta Let_def\<close>)
          from E have "errors (snd (next_tok ?st2)) = []"
            unfolding eq by (rule errors_parse)
          then have E2: "errors ?st2 = []" by simp
          from ok[OF E2 T2 False] st res E a show ?thesis
            unfolding eq by simp
        next
          case F: False
          have eq: "?L = ((?status1, res @ [snd (fst ?r)]), ?st2)"
            by (subst readStatementList_loop.simps)
               (use False Some F in \<open>simp add: split_beta Let_def\<close>)
          from E have E2: "errors ?st2 = []" unfolding eq by simp
          from ok[OF E2 T2 False] st res show ?thesis
            unfolding eq by (simp add: block_res_ok_def)
        qed
      qed
    qed
  qed
next
  case (5 st opts)
  show ?case
  proof (cases "tokens st")
    case Nil
    have "readCase st opts = ((EOI, None), snd (next_tok st))"
      by (subst readCase.simps) (use Nil in \<open>simp add: split_beta peek_def\<close>)
    with Nil show ?thesis by (simp add: case_res_ok_def)
  next
    case (Cons caseTkn ts)
    then have pk: "fst (next_tok st) = Some caseTkn" by (simp add: peek_def)
    let ?st1 = "snd (next_tok st)"
    consider (dflt) "tvalue caseTkn = Str TKN_DEFAULT"
      | (case_) "tvalue caseTkn \<noteq> Str TKN_DEFAULT" "tvalue caseTkn = Str TKN_CASE"
      | (other) "tvalue caseTkn \<noteq> Str TKN_DEFAULT" "tvalue caseTkn \<noteq> Str TKN_CASE"
      by blast
    then show ?thesis
    proof cases
      case dflt
      let ?l = "readStatementList_loop (snd (expect ?st1 [TKN_COLON])) opts [] OK"
      note a = 5(1)[OF prod.collapse pk dflt prod.collapse]
      have eq: "readCase st opts =
                  ((fst (fst ?l),
                    Some (ClauseDefault (SwitchDefault (fst (fst ?l) = OK) (snd (fst ?l))))), snd ?l)"
        by (subst readCase.simps) (use dflt Cons in \<open>simp add: split_beta peek_def\<close>)
      from a show ?thesis unfolding eq
        by (auto simp: case_res_ok_def block_res_ok_def)
    next
      case case_
      let ?c = "readExpr ?st1 opts"
      show ?thesis
      proof (cases "fst ?c")
        case None
        have eq: "readCase st opts = ((EOI, None), snd ?c)"
          by (subst readCase.simps) (use case_ Cons None in \<open>simp add: split_beta peek_def\<close>)
        from readExpr_clean[of ?st1 opts] None show ?thesis
          unfolding eq by (auto simp: case_res_ok_def)
      next
        case (Some expr)
        let ?x = "expect (snd ?c) [TKN_COLON]"
        let ?l = "readStatementList_loop (snd ?x) opts [] OK"
        note a = 5(2)[OF prod.collapse pk case_ prod.collapse Some prod.collapse]
        have eq: "readCase st opts =
                    (if fst (fst ?l) = OK \<and> leaf_or_complete expr
                     then ((fst (fst ?l), Some (ClauseCase (SwitchCase True expr (snd (fst ?l))))),
                           snd ?l)
                     else ((fst (fst ?l), Some (ClauseCase (SwitchCase False expr (snd (fst ?l))))),
                           snd ?l))"
          by (subst readCase.simps)
             (use case_ Cons Some in \<open>simp add: split_beta peek_def\<close>)
        show ?thesis
        proof (rule impI)
          assume "errors (snd (readCase st opts)) = []"
          then have El: "errors (snd ?l) = []" unfolding eq by (simp split: if_splits)
          then have Ex: "errors (snd ?x) = []" by (rule errors_parse)
          then have Ec: "errors (snd ?c) = []" by (rule errors_expect)
          from expect_clean(2)[OF Ex] have Tc: "tokens (snd ?c) \<noteq> []" .
          from readExpr_clean[OF Ec Tc] Some have lc: "leaf_or_complete expr" by simp
          with Some have xc: "expr_all_complete expr" by (auto intro: readExpr_sound)
          from a El have "block_res_ok ?l" by simp
          with lc xc show "case_res_ok (readCase st opts)"
            unfolding eq by (auto simp: case_res_ok_def block_res_ok_def)
        qed
      qed
    next
      case other
      have eq: "readCase st opts =
                 ((ERROR, None),
                  unexpectedToken ?st1 (Some (tvalue caseTkn)) [TKN_CASE, TKN_DEFAULT])"
        by (subst readCase.simps) (use other Cons in \<open>simp add: split_beta peek_def\<close>)
      show ?thesis unfolding eq by simp
    qed
  qed
next
  case (6 st opts)
  let ?i = "readExpr st opts"
  let ?x = "expect (snd ?i) [TKN_BLOCK_OPN]"
  let ?l = "readSwitch_loop (snd ?x) opts (fst (fst ?x)) [] None"
  let ?y = "expect (snd ?l) [TKN_BLOCK_CLS]"
  let ?d = "case snd (snd (fst ?l)) of Some d \<Rightarrow> d | None \<Rightarrow> SwitchDefault True []"
  let ?s2 = "if fst (fst ?y) \<noteq> OK then fst (fst ?y) else fst (fst ?l)"
  show ?case
  proof (cases "fst (fst ?x) = EOI")
    case True
    have eq: "readSwitch st opts = ((EOI, None), snd ?x)"
      by (subst readSwitch.simps) (use True in \<open>simp add: split_beta\<close>)
    show ?thesis unfolding eq using expect_clean(1)[of "snd ?i" "[TKN_BLOCK_OPN]"] True
      by auto
  next
    case False
    note a = 6(1)[OF prod.collapse prod.collapse prod.collapse False]
    have eq: "readSwitch st opts =
               (if ?s2 = OK then ((?s2, Some (Switch True (fst ?i) (fst (snd (fst ?l))) ?d)), snd ?y)
                else ((?s2, Some (Switch False (fst ?i) (fst (snd (fst ?l))) ?d)), snd ?y))"
      by (subst readSwitch.simps) (use False in \<open>simp add: split_beta Let_def\<close>)
    show ?thesis
    proof (rule impI)
      assume "errors (snd (readSwitch st opts)) = []"
      then have Ey: "errors (snd ?y) = []" unfolding eq by (simp split: if_splits)
      then have El: "errors (snd ?l) = []" by (rule errors_expect)
      then have Ex: "errors (snd ?x) = []" by (rule errors_parse)
      then have Ei: "errors (snd ?i) = []" by (rule errors_expect)
      note y = expect_clean[OF Ey] and x = expect_clean[OF Ex]
      from readExpr_clean[OF Ei x(2)] obtain e where e: "fst ?i = Some e" "leaf_or_complete e"
        by blast
      then have ec: "expr_all_complete e" by (rule readExpr_sound)
      from a El x(1) have "fst (fst ?l) = OK
           \<and> cases_ok (snd ?l) (fst (snd (fst ?l))) (snd (snd (fst ?l)))"
        by (simp add: cases_ok_def)
      with y(2) have l: "fst (fst ?l) = OK" "list_all case_all_complete (fst (snd (fst ?l)))"
        "\<forall>d. snd (snd (fst ?l)) = Some d \<longrightarrow> default_all_complete d"
        by (simp_all add: cases_ok_def)
      then have "default_all_complete ?d" by (simp split: option.splits)
      with l e ec y(1) show "stmt_res_ok (readSwitch st opts)"
        unfolding eq by (simp add: stmt_res_ok_def)
    qed
  qed
next
  case (7 st opts status cases dflt)
  let ?L = "readSwitch_loop st opts status cases dflt"
  show ?case
  proof (cases "peek st")
    case None
    have eq: "?L = ((status, cases, dflt), st)"
      by (subst readSwitch_loop.simps) (use None in simp)
    show ?thesis unfolding eq by simp
  next
    case (Some nxt)
    note pk = Some
    then have T: "tokens st \<noteq> []" by (auto simp: peek_def split: list.splits)
    show ?thesis
    proof (cases "tvalue nxt \<noteq> Str TKN_DEFAULT \<and> tvalue nxt \<noteq> Str TKN_CASE")
      case True
      have eq: "?L = ((status, cases, dflt), st)"
        by (subst readSwitch_loop.simps) (use True pk in simp)
      show ?thesis unfolding eq by simp
    next
      case False
      let ?st1 = "if dflt \<noteq> None
                  then unexpectedToken st (Some (tvalue nxt)) [TKN_BLOCK_CLS] else st"
      let ?r = "readCase ?st1 opts"
      let ?status1 = "if status \<noteq> OK then fst (fst ?r) else status"
      note a = 7(1)[OF pk False refl]
      show ?thesis
      proof (intro impI)
        assume E: "errors (snd ?L) = []" and st: "status = OK" and J: "cases_ok st cases dflt"
        from J T have cs: "list_all case_all_complete cases"
          "\<forall>d. dflt = Some d \<longrightarrow> default_all_complete d" by (simp_all add: cases_ok_def)
        have s1: "?status1 = OK" using st by simp
        have cl: "clause_all_complete c"
          if "errors (snd ?r) = []" "tokens (snd ?r) \<noteq> []" "snd (fst ?r) = Some c" for c
          using a that by (auto simp: case_res_ok_def)
        show "fst (fst ?L) = OK \<and> cases_ok (snd ?L) (fst (snd (fst ?L))) (snd (snd (fst ?L)))"
        proof (cases "snd (fst ?r)")
          case None
          have eq: "?L = ((?status1, cases, dflt), snd ?r)"
            by (subst readSwitch_loop.simps)
               (use pk False None in \<open>auto simp add: split_beta Let_def\<close>)
          show ?thesis unfolding eq using s1 cs by (simp add: cases_ok_def)
        next
          case (Some c')
          have F: "\<not> (?status1 = EOI \<or> snd (fst ?r) = None)" using s1 Some by simp
          show ?thesis
          proof (cases c')
            case (ClauseCase c)
            note b = 7(2)[OF pk False refl prod.collapse prod.collapse refl F Some ClauseCase]
            have eq: "?L = readSwitch_loop (snd ?r) opts ?status1 (cases @ [c]) dflt"
              by (subst readSwitch_loop.simps)
                 (use pk False Some ClauseCase s1 in \<open>auto simp add: split_beta Let_def\<close>)
            from E have Er: "errors (snd ?r) = []" unfolding eq by (rule errors_parse)
            have "cases_ok (snd ?r) (cases @ [c]) dflt"
              using cl[OF Er _ Some] cs ClauseCase by (auto simp: cases_ok_def)
            with b E s1 show ?thesis unfolding eq by simp
          next
            case (ClauseDefault d)
            note b = 7(3)[OF pk False refl prod.collapse prod.collapse refl F Some ClauseDefault]
            have eq: "?L = readSwitch_loop (snd ?r) opts ?status1 cases (Some d)"
              by (subst readSwitch_loop.simps)
                 (use pk False Some ClauseDefault s1 in \<open>auto simp add: split_beta Let_def\<close>)
            from E have Er: "errors (snd ?r) = []" unfolding eq by (rule errors_parse)
            have "cases_ok (snd ?r) cases (Some d)"
              using cl[OF Er _ Some] cs ClauseDefault by (auto simp: cases_ok_def)
            with b E s1 show ?thesis unfolding eq by simp
          qed
        qed
      qed
    qed
  qed
qed


lemma readProgram_fields:
  assumes "prog_complete (fst (readProgram st opts))"
  shows "prog_body (fst (readProgram st opts)) = snd (fst (readBlock (snd (readProgramIntro st)) opts))"
    and "prog_name (fst (readProgram st opts)) \<noteq> None"
    and "prog_input (fst (readProgram st opts)) \<noteq> None"
    and "prog_output (fst (readProgram st opts)) \<noteq> None"
  using assms unfolding readProgram_def split_beta Let_def
  by (auto split: if_splits option.splits)

lemma readProgram_after_block:
  assumes "fst (fst (readProgramIntro st)) \<noteq> EOI"
    and "fst (fst (readBlock (snd (readProgramIntro st)) opts)) \<noteq> EOI"
    and "within T E (snd (readBlock (snd (readProgramIntro st)) opts))"
  shows "within T E (snd (readProgram st opts))"
  using assms by (simp add: readProgram_state Let_def split: option.splits)

lemma readProgram_clean:
  assumes "prog_complete (fst (readProgram st opts))" and "errors (snd (readProgram st opts)) = []"
  shows "prog_all_complete (fst (readProgram st opts))"
proof -
  let ?b = "readBlock (snd (readProgramIntro st)) opts"
  note c = readProgram_complete[OF assms(1)]
  from c have "within (tokens (snd ?b)) (errors (snd ?b)) (snd (readProgram st opts))"
    by (intro readProgram_after_block) (simp_all add: within_refl)
  from within_errors_nil[OF this assms(2)] have "errors (snd ?b) = []" .
  with parse_clean(3)[of "snd (readProgramIntro st)" opts] c(2)
  have "list_all cmd_slot_complete (snd (fst ?b))" by (simp add: block_res_ok_def)
  with assms(1) readProgram_fields[OF assms(1)] show ?thesis
    by (simp add: prog_all_complete_def)
qed


text \<open>
  Four programs as token lists: \<open>p read X { } write X X\<close>, \<open>p read X { X := Y ;\<close>,
  \<open>p read X { while cons X { } } } write X\<close> and
  \<open>p read X { while X { X := tl X } } write X\<close>.
\<close>

definition extra_token_tokens :: "token list" where
  "extra_token_tokens =
    [tok Identifier ''p'' 0 0,
     tok Expression ''read'' 0 2,
     tok Identifier ''X'' 0 7,
     tok Symbol ''{'' 0 9,
     tok Symbol ''}'' 0 11,
     tok Expression ''write'' 0 13,
     tok Identifier ''X'' 0 19,
     tok Identifier ''X'' 0 21]"

definition unfinished_tokens :: "token list" where
  "unfinished_tokens =
    [tok Identifier ''p'' 0 0,
     tok Expression ''read'' 0 2,
     tok Identifier ''X'' 0 7,
     tok Symbol ''{'' 0 9,
     tok Identifier ''X'' 0 11,
     tok Symbol '':='' 0 13,
     tok Identifier ''Y'' 0 16,
     tok Symbol '';'' 0 18]"

definition bad_loop_tokens :: "token list" where
  "bad_loop_tokens =
    [tok Identifier ''p'' 0 0,
     tok Expression ''read'' 0 2,
     tok Identifier ''X'' 0 7,
     tok Symbol ''{'' 0 9,
     tok Expression ''while'' 0 11,
     tok Operation ''cons'' 0 17,
     tok Identifier ''X'' 0 22,
     tok Symbol ''{'' 0 24,
     tok Symbol ''}'' 0 26,
     tok Symbol ''}'' 0 28,
     tok Symbol ''}'' 0 30,
     tok Expression ''write'' 0 32,
     tok Identifier ''X'' 0 38]"

definition count_down_tokens :: "token list" where
  "count_down_tokens =
    [tok Identifier ''p'' 0 0,
     tok Expression ''read'' 0 2,
     tok Identifier ''X'' 0 7,
     tok Symbol ''{'' 0 9,
     tok Expression ''while'' 0 11,
     tok Identifier ''X'' 0 17,
     tok Symbol ''{'' 0 19,
     tok Identifier ''X'' 0 21,
     tok Symbol '':='' 0 23,
     tok Operation ''tl'' 0 26,
     tok Identifier ''X'' 0 29,
     tok Symbol ''}'' 0 31,
     tok Symbol ''}'' 0 33,
     tok Expression ''write'' 0 35,
     tok Identifier ''X'' 0 41]"







section \<open>Expression evaluation on the heap\<close>

text \<open>
  \<open>evalExpr\<close> above gives every frame its own argument list, as values. Whether
  \<open>_evalExpr\<close> may write into the tree of the program is a question about objects and
  references, so here the same code is embedded over an explicit heap. An object is the
  node of an operation (its \<open>complete\<close> flag, its \<open>op\<close> token and the reference to its
  \<open>args\<close> array), of an identifier or of a tree literal, the \<open>root\<close> object of the
  evaluation (the reference to its \<open>args\<close> array), the empty object that spreading \<open>null\<close>
  gives, or an array. An element of an array is a reference, \<open>null\<close>, or a \<open>Literal\<close>
  \<open>{type: 'literal', tree}\<close>, kept as a value: a literal is made where it is stored and
  never written. \<open>next_addr\<close> is the address of the next object: the objects that exist
  are those below it, and every \<open>{...}\<close> and \<open>[...]\<close> of the code takes a new address.
\<close>

type_synonym addr = nat

datatype slot = SRef addr | SNull | SLit tree

datatype hobj =
    OOp bool token addr
  | OIdent token
  | OTree tree
  | ORoot addr
  | OEmpty
  | OArray "slot list"

record heap =
  objs :: "addr \<Rightarrow> hobj option"
  next_addr :: addr

definition h_alloc :: "hobj \<Rightarrow> heap \<Rightarrow> addr \<times> heap" where
  "h_alloc ob h = (next_addr h, h\<lparr>objs := (objs h)(next_addr h \<mapsto> ob), next_addr := Suc (next_addr h)\<rparr>)"


text \<open>
  \<open>_copyExpr\<close>: \<open>copy = {...expr}\<close> is a new object with the fields of \<open>expr\<close>, its
  \<open>args\<close> still the array of \<open>expr\<close>; for a root or an operation
  \<open>copy.args = [...copy.args]\<close> then makes a new array with the same elements and stores
  it in the copy. Spreading \<open>args\<close> that is not an array throws.
\<close>

definition h_copy_args :: "addr \<Rightarrow> (addr \<Rightarrow> hobj) \<Rightarrow> addr \<Rightarrow> heap \<Rightarrow> interp_error + addr \<times> heap" where
  "h_copy_args a mk arr h =
     (case objs h arr of
        Some (OArray xs) \<Rightarrow>
          (let (a', h1) = h_alloc (mk arr) h;
               (arr', h2) = h_alloc (OArray xs) h1
           in Inr (a', h2\<lparr>objs := (objs h2)(a' \<mapsto> mk arr')\<rparr>))
      | _ \<Rightarrow> Inl TypeError)"

fun h_copyExpr :: "slot \<Rightarrow> heap \<Rightarrow> interp_error + addr \<times> heap" where
  "h_copyExpr SNull h = Inr (h_alloc OEmpty h)"
| "h_copyExpr (SLit t) h = Inr (h_alloc OEmpty h)"
| "h_copyExpr (SRef a) h =
     (case objs h a of
        None \<Rightarrow> Inl TypeError
      | Some (OOp c opr arr) \<Rightarrow> h_copy_args a (OOp c opr) arr h
      | Some (ORoot arr) \<Rightarrow> h_copy_args a ORoot arr h
      | Some (OIdent t) \<Rightarrow> Inr (h_alloc (OIdent t) h)
      | Some (OTree t) \<Rightarrow> Inr (h_alloc (OTree t) h)
      | Some OEmpty \<Rightarrow> Inr (h_alloc OEmpty h)
      | Some (OArray xs) \<Rightarrow> Inr (h_alloc OEmpty h))"


text \<open>
  The scan for the first element that is not a literal, and \<open>_replaceArgWithLiteral\<close>:
  \<open>par.args[i] = {type: 'literal', tree: val}\<close> writes into the array that the object
  on top of the stack refers to.
\<close>

fun h_first_non_literal :: "slot list \<Rightarrow> (interp_error + slot) option" where
  "h_first_non_literal [] = None"
| "h_first_non_literal (SLit t # xs) = h_first_non_literal xs"
| "h_first_non_literal (SNull # xs) = Some (Inl TypeError)"
| "h_first_non_literal (SRef a # xs) = Some (Inr (SRef a))"

fun h_replace_first :: "tree \<Rightarrow> slot list \<Rightarrow> interp_error + slot list" where
  "h_replace_first v [] = Inr []"
| "h_replace_first v (SLit t # xs) =
     (case h_replace_first v xs of Inl e \<Rightarrow> Inl e | Inr xs' \<Rightarrow> Inr (SLit t # xs'))"
| "h_replace_first v (SNull # xs) = Inl TypeError"
| "h_replace_first v (SRef a # xs) = Inr (SLit v # xs)"

definition h_args_of :: "heap \<Rightarrow> addr \<Rightarrow> addr option" where
  "h_args_of h a =
     (case objs h a of
        Some (OOp c opr arr) \<Rightarrow> Some arr
      | Some (ORoot arr) \<Rightarrow> Some arr
      | _ \<Rightarrow> None)"

definition h_replaceArgWithLiteral :: "tree \<Rightarrow> addr list \<Rightarrow> heap \<Rightarrow> interp_error + heap" where
  "h_replaceArgWithLiteral v stack h =
     (case stack of
        [] \<Rightarrow> Inl TypeError
      | par # rest \<Rightarrow>
          (case h_args_of h par of
             None \<Rightarrow> Inl TypeError
           | Some arr \<Rightarrow>
               (case objs h arr of
                  Some (OArray xs) \<Rightarrow>
                    (case h_replace_first v xs of
                       Inl e \<Rightarrow> Inl e
                     | Inr xs' \<Rightarrow> Inr (h\<lparr>objs := (objs h)(arr \<mapsto> OArray xs')\<rparr>))
                | _ \<Rightarrow> Inl TypeError)))"

fun h_lit :: "slot \<Rightarrow> tree" where
  "h_lit (SLit t) = t"
| "h_lit x = Nil"


text \<open>
  One turn of the loop on the popped object \<open>cur\<close>. The message of the last \<open>throw\<close>
  reads \<open>expr.type\<close> of the expression \<open>_evalExpr\<close> was called on, which throws a
  \<open>TypeError\<close> when that is \<open>null\<close>.
\<close>

definition h_eval_frame ::
  "store \<Rightarrow> slot \<Rightarrow> addr \<Rightarrow> addr list \<Rightarrow> heap \<Rightarrow> interp_error + addr list \<times> heap" where
  "h_eval_frame s e cur rest h =
     (case objs h cur of
        Some (OOp c opr arr) \<Rightarrow>
          (case objs h arr of
             Some (OArray xs) \<Rightarrow>
               (case h_first_non_literal xs of
                  Some (Inl x) \<Rightarrow> Inl x
                | Some (Inr p) \<Rightarrow>
                    (case h_copyExpr p h of
                       Inl x \<Rightarrow> Inl x
                     | Inr (a', h') \<Rightarrow> Inr (a' # cur # rest, h'))
                | None \<Rightarrow>
                    (case apply_op opr (map h_lit xs) of
                       Inl x \<Rightarrow> Inl x
                     | Inr v \<Rightarrow>
                         (case h_replaceArgWithLiteral v rest h of
                            Inl x \<Rightarrow> Inl x
                          | Inr h' \<Rightarrow> Inr (rest, h'))))
           | _ \<Rightarrow> Inl TypeError)
      | Some (OIdent t) \<Rightarrow>
          (case h_replaceArgWithLiteral
                  (if tvalue t = Str ''nil'' then Nil else get_or_nil s (tvalue t)) rest h of
             Inl x \<Rightarrow> Inl x
           | Inr h' \<Rightarrow> Inr (rest, h'))
      | _ \<Rightarrow> Inl (if e = SNull then TypeError else UnknownExpressionToken))"


text \<open>
  The loop \<open>while (exprStack.length > 1)\<close> on a heap that may hold any graph of objects,
  cyclic ones included: \<open>None\<close> is the evaluation that never ends. The result carries
  the heap at the end, also when the evaluation throws.
\<close>

partial_function (option) h_eval_loop ::
  "store \<Rightarrow> slot \<Rightarrow> addr list \<Rightarrow> heap \<Rightarrow> ((interp_error + addr list) \<times> heap) option" where
  "h_eval_loop s e stack h =
     (case stack of
        cur # rest \<Rightarrow>
          if rest \<noteq> [] then
            (case h_eval_frame s e cur rest h of
               Inl x \<Rightarrow> Some (Inl x, h)
             | Inr (stack', h') \<Rightarrow> h_eval_loop s e stack' h')
          else Some (Inr stack, h)
      | [] \<Rightarrow> Some (Inr stack, h))"

declare h_eval_loop.simps [code]

definition h_start :: "slot \<Rightarrow> heap \<Rightarrow> interp_error + addr list \<times> heap" where
  "h_start e h =
     (let (arr, h1) = h_alloc (OArray [e]) h;
          (root, h2) = h_alloc (ORoot arr) h1
      in case h_copyExpr e h2 of
           Inl x \<Rightarrow> Inl x
         | Inr (c, h3) \<Rightarrow> Inr ([c, root], h3))"

definition h_result :: "addr list \<Rightarrow> heap \<Rightarrow> interp_error + tree" where
  "h_result stack h =
     (case stack of
        [] \<Rightarrow> Inl TypeError
      | root # rest \<Rightarrow>
          (case h_args_of h root of
             None \<Rightarrow> Inl TypeError
           | Some arr \<Rightarrow>
               (case objs h arr of
                  Some (OArray (SLit t # xs)) \<Rightarrow> Inr t
                | _ \<Rightarrow> Inl TypeError)))"

definition h_evalExpr :: "store \<Rightarrow> slot \<Rightarrow> heap \<Rightarrow> ((interp_error + tree) \<times> heap) option" where
  "h_evalExpr s e h =
     (case h_start e h of
        Inl x \<Rightarrow> Some (Inl x, h)
      | Inr (stack, h1) \<Rightarrow>
          (case h_eval_loop s e stack h1 of
             None \<Rightarrow> None
           | Some (Inl x, h') \<Rightarrow> Some (Inl x, h')
           | Some (Inr stack', h') \<Rightarrow> Some (h_result stack' h', h')))"



subsection \<open>Evaluation writes only into its own objects\<close>

text \<open>
  \<open>h_ext n h h'\<close>: every object of \<open>h'\<close> is the object \<open>h\<close> has at this address, or
  sits at an address from \<open>n\<close> on and, if it has an \<open>args\<close> array, refers to an array from
  \<open>n\<close> on. \<open>h_own n stack h\<close>: the \<open>args\<close> arrays of the objects on the stack are from \<open>n\<close>
  on. Both hold throughout an evaluation started at \<open>n = next_addr h\<close>.
\<close>

definition h_ext :: "addr \<Rightarrow> heap \<Rightarrow> heap \<Rightarrow> bool" where
  "h_ext n h h' \<longleftrightarrow>
     n \<le> next_addr h'
     \<and> (\<forall>b. objs h' b = objs h b \<or> (n \<le> b \<and> (\<forall>arr. h_args_of h' b = Some arr \<longrightarrow> n \<le> arr)))"

definition h_own :: "addr \<Rightarrow> addr list \<Rightarrow> heap \<Rightarrow> bool" where
  "h_own n stack h \<longleftrightarrow> (\<forall>a \<in> set stack. \<forall>arr. h_args_of h a = Some arr \<longrightarrow> n \<le> arr)"

lemma h_args_of_cong: "objs h' b = objs h b \<Longrightarrow> h_args_of h' b = h_args_of h b"
  by (simp add: h_args_of_def)

lemma h_ext_refl: "n \<le> next_addr h \<Longrightarrow> h_ext n h h"
  by (simp add: h_ext_def)

lemma h_ext_trans:
  assumes "h_ext n h h1" and "h_ext n h1 h2"
  shows "h_ext n h h2"
  unfolding h_ext_def
proof (intro conjI allI)
  show "n \<le> next_addr h2" using assms(2) by (simp add: h_ext_def)
  fix b
  from assms(2) have 2: "objs h2 b = objs h1 b \<or> (n \<le> b \<and> (\<forall>arr. h_args_of h2 b = Some arr \<longrightarrow> n \<le> arr))"
    by (simp add: h_ext_def)
  from assms(1) have 1: "objs h1 b = objs h b \<or> (n \<le> b \<and> (\<forall>arr. h_args_of h1 b = Some arr \<longrightarrow> n \<le> arr))"
    by (simp add: h_ext_def)
  from 1 2 h_args_of_cong[of h2 b h1]
  show "objs h2 b = objs h b \<or> (n \<le> b \<and> (\<forall>arr. h_args_of h2 b = Some arr \<longrightarrow> n \<le> arr))"
    by auto
qed

lemma h_ext_frame: "h_ext n h h' \<Longrightarrow> a < n \<Longrightarrow> objs h' a = objs h a"
  by (auto simp: h_ext_def)

lemma h_ext_own: "h_ext n h h' \<Longrightarrow> h_own n stack h \<Longrightarrow> h_own n stack h'"
  unfolding h_ext_def h_own_def using h_args_of_cong by metis

lemma h_ext_alloc:
  assumes "h_alloc ob h = (a, h')" and "n \<le> next_addr h"
    and "\<forall>c opr arr. ob \<noteq> OOp c opr arr" and "\<forall>arr. ob \<noteq> ORoot arr"
  shows "h_ext n h h'" and "h_args_of h' a = None"
  using assms by (auto simp: h_alloc_def h_ext_def h_args_of_def split: hobj.splits if_splits)

lemma h_ext_copy_args:
  assumes "h_copy_args a mk arr h = Inr (a', h')" and "n \<le> next_addr h"
    and "mk = ORoot \<or> (\<exists>c opr. mk = OOp c opr)"
  shows "h_ext n h h'" and "\<forall>x. h_args_of h' a' = Some x \<longrightarrow> n \<le> x"
  using assms
  by (auto simp: h_copy_args_def h_alloc_def h_ext_def h_args_of_def Let_def
           split: option.splits hobj.splits if_splits)

lemma h_ext_copyExpr:
  assumes "h_copyExpr p h = Inr (a', h')" and "n \<le> next_addr h"
  shows "h_ext n h h' \<and> (\<forall>x. h_args_of h' a' = Some x \<longrightarrow> n \<le> x)"
proof (cases p)
  case (SRef a)
  show ?thesis
  proof (cases "objs h a")
    case None
    with assms SRef show ?thesis by simp
  next
    case (Some ob)
    show ?thesis
    proof (cases ob)
      case (OOp c opr arr)
      with assms SRef Some have "h_copy_args a (OOp c opr) arr h = Inr (a', h')" by simp
      from h_ext_copy_args[OF this assms(2)] show ?thesis by blast
    next
      case (ORoot arr)
      with assms SRef Some have "h_copy_args a ORoot arr h = Inr (a', h')" by simp
      from h_ext_copy_args[OF this assms(2)] show ?thesis by blast
    next
      case (OIdent t)
      with assms SRef Some have "h_alloc (OIdent t) h = (a', h')" by simp
      from h_ext_alloc[OF this assms(2)] show ?thesis by simp
    next
      case (OTree t)
      with assms SRef Some have "h_alloc (OTree t) h = (a', h')" by simp
      from h_ext_alloc[OF this assms(2)] show ?thesis by simp
    next
      case OEmpty
      with assms SRef Some have "h_alloc OEmpty h = (a', h')" by simp
      from h_ext_alloc[OF this assms(2)] show ?thesis by simp
    next
      case (OArray xs)
      with assms SRef Some have "h_alloc OEmpty h = (a', h')" by simp
      from h_ext_alloc[OF this assms(2)] show ?thesis by simp
    qed
  qed
next
  case SNull
  with assms have "h_alloc OEmpty h = (a', h')" by simp
  from h_ext_alloc[OF this assms(2)] show ?thesis by simp
next
  case (SLit t)
  with assms have "h_alloc OEmpty h = (a', h')" by simp
  from h_ext_alloc[OF this assms(2)] show ?thesis by simp
qed

lemma h_ext_replace:
  assumes "h_replaceArgWithLiteral v stack h = Inr h'" and "n \<le> next_addr h"
    and "h_own n stack h"
  shows "h_ext n h h'"
proof -
  from assms(1) obtain par rest arr xs xs' where st: "stack = par # rest"
    and a: "h_args_of h par = Some arr" and h': "h' = h\<lparr>objs := (objs h)(arr \<mapsto> OArray xs')\<rparr>"
    by (auto simp: h_replaceArgWithLiteral_def split: list.splits option.splits hobj.splits sum.splits)
  from assms(3) st a have "n \<le> arr" by (simp add: h_own_def)
  with assms(2) h' show ?thesis by (auto simp: h_ext_def h_args_of_def)
qed

lemma h_own_tl: "h_own n (a # stack) h \<Longrightarrow> h_own n stack h"
  by (simp add: h_own_def)

lemma h_eval_frame_ext:
  assumes "h_eval_frame s e cur rest h = Inr (stack', h')" and "n \<le> next_addr h"
    and "h_own n (cur # rest) h"
  shows "h_ext n h h' \<and> h_own n stack' h'"
proof (cases "objs h cur")
  case None
  with assms(1) show ?thesis by (simp add: h_eval_frame_def)
next
  case ob: (Some ob)
  note own = h_own_tl[OF assms(3)]
  have repl: "h_ext n h h' \<and> h_own n stack' h'"
    if "(case h_replaceArgWithLiteral v rest h of Inl x \<Rightarrow> Inl x | Inr h' \<Rightarrow> Inr (rest, h'))
          = Inr (stack', h')" for v
  proof (cases "h_replaceArgWithLiteral v rest h")
    case (Inl x)
    with that show ?thesis by simp
  next
    case (Inr h1)
    with that have "stack' = rest" "h' = h1" by simp_all
    with h_ext_replace[OF Inr assms(2) own] h_ext_own[OF _ own, of h'] show ?thesis by simp
  qed
  show ?thesis
  proof (cases ob)
    case (OOp c opr arr)
    show ?thesis
    proof (cases "objs h arr")
      case None
      with assms(1) ob OOp show ?thesis by (simp add: h_eval_frame_def)
    next
      case arr: (Some oa)
      show ?thesis
      proof (cases oa)
        case (OArray xs)
        show ?thesis
        proof (cases "h_first_non_literal xs")
          case None
          have eq: "h_eval_frame s e cur rest h =
                (case apply_op opr (map h_lit xs) of
                   Inl x \<Rightarrow> Inl x
                 | Inr v \<Rightarrow>
                     (case h_replaceArgWithLiteral v rest h of
                        Inl x \<Rightarrow> Inl x
                      | Inr h' \<Rightarrow> Inr (rest, h')))"
            by (simp add: h_eval_frame_def ob OOp arr OArray None)
          show ?thesis
          proof (cases "apply_op opr (map h_lit xs)")
            case (Inl x)
            with assms(1) eq show ?thesis by simp
          next
            case (Inr v)
            with assms(1) eq repl[of v] show ?thesis by simp
          qed
        next
          case (Some r)
          have eq: "h_eval_frame s e cur rest h =
                (case r of
                   Inl x \<Rightarrow> Inl x
                 | Inr p \<Rightarrow>
                     (case h_copyExpr p h of
                        Inl x \<Rightarrow> Inl x
                      | Inr (a', h') \<Rightarrow> Inr (a' # cur # rest, h')))"
            by (simp add: h_eval_frame_def ob OOp arr OArray Some)
          show ?thesis
          proof (cases r)
            case (Inl x)
            with assms(1) eq show ?thesis by simp
          next
            case (Inr p)
            show ?thesis
            proof (cases "h_copyExpr p h")
              case Inl
              with assms(1) eq Inr show ?thesis by simp
            next
              case c: (Inr q)
              obtain a' h1 where q: "q = (a', h1)" by (cases q)
              from assms(1) eq Inr c q have s': "stack' = a' # cur # rest" "h' = h1" by simp_all
              from h_ext_copyExpr[OF c[unfolded q] assms(2)] h_ext_own[OF _ assms(3), of h1] s'
              show ?thesis by (simp add: h_own_def)
            qed
          qed
        qed
      qed (use assms(1) ob OOp arr in \<open>simp_all add: h_eval_frame_def\<close>)
    qed
  next
    case (OIdent t)
    with assms(1) ob
    have "(case h_replaceArgWithLiteral
                  (if tvalue t = Str ''nil'' then Nil else get_or_nil s (tvalue t)) rest h of
             Inl x \<Rightarrow> Inl x
           | Inr h' \<Rightarrow> Inr (rest, h')) = Inr (stack', h')"
      by (simp add: h_eval_frame_def)
    then show ?thesis by (rule repl)
  next
    case (OTree t)
    with assms(1) ob show ?thesis by (simp add: h_eval_frame_def)
  next
    case (ORoot arr)
    with assms(1) ob show ?thesis by (simp add: h_eval_frame_def)
  next
    case OEmpty
    with assms(1) ob show ?thesis by (simp add: h_eval_frame_def)
  next
    case (OArray xs)
    with assms(1) ob show ?thesis by (simp add: h_eval_frame_def)
  qed
qed

lemma h_eval_loop_ext_aux:
  assumes "h_eval_loop s e stack h = Some r"
  shows "\<forall>n h0. h_ext n h0 h \<longrightarrow> h_own n stack h \<longrightarrow> h_ext n h0 (snd r)"
proof (rule h_eval_loop.raw_induct[where P="\<lambda>s e stack h r.
          \<forall>n h0. h_ext n h0 h \<longrightarrow> h_own n stack h \<longrightarrow> h_ext n h0 (snd r)", OF _ assms],
       goal_cases)
  case (1 loop' s e stack h r)
  show ?case
  proof (intro allI impI)
    fix n h0
    assume x: "h_ext n h0 h" and o: "h_own n stack h"
    then have n: "n \<le> next_addr h" by (simp add: h_ext_def)
    show "h_ext n h0 (snd r)"
    proof (cases stack)
      case Nil
      with 1(2) x show ?thesis by auto
    next
      case (Cons cur rest)
      show ?thesis
      proof (cases "rest = []")
        case True
        with 1(2) Cons x show ?thesis by auto
      next
        case False
        show ?thesis
        proof (cases "h_eval_frame s e cur rest h")
          case (Inl err)
          with 1(2) Cons False x show ?thesis by auto
        next
          case (Inr p)
          obtain stack' h' where p: "p = (stack', h')" by (cases p)
          from 1(2) Cons False Inr p have l: "loop' s e stack' h' = Some r" by simp
          from h_eval_frame_ext[OF Inr[unfolded p] n o[unfolded Cons]]
          have "h_ext n h h'" "h_own n stack' h'" by simp_all
          with x have "h_ext n h0 h'" by (blast intro: h_ext_trans)
          with 1(1)[OF l] \<open>h_own n stack' h'\<close> show ?thesis by blast
        qed
      qed
    qed
  qed
qed

lemma h_start_ext:
  assumes "h_start e h = Inr (stack, h1)"
  shows "h_ext (next_addr h) h h1 \<and> h_own (next_addr h) stack h1"
proof -
  let ?n = "next_addr h"
  let ?h1 = "snd (h_alloc (OArray [e]) h)"
  let ?h2 = "snd (h_alloc (ORoot ?n) ?h1)"
  from assms obtain c where c: "h_copyExpr e ?h2 = Inr (c, h1)" and st: "stack = [c, Suc ?n]"
    by (auto simp: h_start_def h_alloc_def Let_def split: sum.splits)
  have e2: "h_ext ?n h ?h2" by (auto simp: h_ext_def h_alloc_def h_args_of_def)
  have n2: "?n \<le> next_addr ?h2" by (simp add: h_alloc_def)
  have o2: "h_own ?n [Suc ?n] ?h2" by (simp add: h_own_def h_alloc_def h_args_of_def)
  from h_ext_copyExpr[OF c n2] have x: "h_ext ?n ?h2 h1"
    and oc: "\<forall>x. h_args_of h1 c = Some x \<longrightarrow> ?n \<le> x" by simp_all
  from h_ext_own[OF x o2] oc st have "h_own ?n stack h1" by (simp add: h_own_def)
  with h_ext_trans[OF e2 x] show ?thesis by simp
qed

lemma h_evalExpr_ext:
  assumes "h_evalExpr s e h = Some (r, h')"
  shows "h_ext (next_addr h) h h'"
proof (cases "h_start e h")
  case (Inl x)
  with assms show ?thesis by (simp add: h_evalExpr_def h_ext_refl)
next
  case (Inr p)
  obtain stack h1 where p: "p = (stack, h1)" by (cases p)
  from assms Inr p obtain r' where l: "h_eval_loop s e stack h1 = Some (r', h')"
    by (auto simp: h_evalExpr_def split: option.splits sum.splits)
  from h_start_ext[OF Inr[unfolded p]] h_eval_loop_ext_aux[OF l] show ?thesis by simp
qed



text \<open>
  \<open>h_is n h p e\<close>: the element \<open>p\<close> is the expression \<open>e\<close> (\<open>null\<close> for \<open>None\<close>), stored in
  objects below \<open>n\<close>, as the parser builds it: one object per node, one array per
  argument list.
\<close>

fun h_is :: "addr \<Rightarrow> heap \<Rightarrow> slot \<Rightarrow> expr option \<Rightarrow> bool"
  and h_are :: "addr \<Rightarrow> heap \<Rightarrow> slot list \<Rightarrow> expr option list \<Rightarrow> bool" where
  "h_is n h p None = (p = SNull)"
| "h_is n h p (Some (EIdent t)) =
     (case p of SRef a \<Rightarrow> a < n \<and> objs h a = Some (OIdent t) | _ \<Rightarrow> False)"
| "h_is n h p (Some (ETree t)) =
     (case p of SRef a \<Rightarrow> a < n \<and> objs h a = Some (OTree t) | _ \<Rightarrow> False)"
| "h_is n h p (Some (EOp c opr es)) =
     (case p of
        SRef a \<Rightarrow>
          a < n \<and>
          (case objs h a of
             Some (OOp c' opr' arr) \<Rightarrow>
               c' = c \<and> opr' = opr \<and> arr < n \<and>
               (case objs h arr of Some (OArray xs) \<Rightarrow> h_are n h xs es | _ \<Rightarrow> False)
           | _ \<Rightarrow> False)
      | _ \<Rightarrow> False)"
| "h_are n h [] es = (es = [])"
| "h_are n h (x # xs) es = (case es of [] \<Rightarrow> False | e # es' \<Rightarrow> h_is n h x e \<and> h_are n h xs es')"

lemma h_is_EOp:
  "h_is n h p (Some (EOp c opr es)) \<longleftrightarrow>
     (\<exists>a arr xs. p = SRef a \<and> a < n \<and> objs h a = Some (OOp c opr arr) \<and> arr < n
        \<and> objs h arr = Some (OArray xs) \<and> h_are n h xs es)"
proof (cases p)
  case (SRef a)
  show ?thesis
  proof (cases "objs h a")
    case None
    with SRef show ?thesis by simp
  next
    case (Some ob)
    show ?thesis
    proof (cases ob)
      case (OOp c' opr' arr)
      show ?thesis
      proof (cases "objs h arr")
        case None
        with SRef Some OOp show ?thesis by simp
      next
        case arr: (Some oa)
        with SRef Some OOp show ?thesis by (cases oa) auto
      qed
    qed (use SRef Some in simp_all)
  qed
qed simp_all

lemma h_is_leaf:
  "h_is n h p (Some (EIdent t)) \<longleftrightarrow> (\<exists>a. p = SRef a \<and> a < n \<and> objs h a = Some (OIdent t))"
  "h_is n h p (Some (ETree t')) \<longleftrightarrow> (\<exists>a. p = SRef a \<and> a < n \<and> objs h a = Some (OTree t'))"
  by (cases p; simp)+

lemma h_are_Cons:
  "h_are n h (x # xs) es \<longleftrightarrow> (\<exists>e es'. es = e # es' \<and> h_is n h x e \<and> h_are n h xs es')"
  by (cases es) simp_all

declare h_is.simps(2-4) [simp del] h_are.simps(2) [simp del]

lemma h_is_frame_aux:
  "(\<forall>a<n. objs h' a = objs h a) \<longrightarrow> h_is n h p eo \<longrightarrow> h_is n h' p eo"
  "(\<forall>a<n. objs h' a = objs h a) \<longrightarrow> h_are n h xs es \<longrightarrow> h_are n h' xs es"
proof (induction n h p eo and n h xs es rule: h_is_h_are.induct)
  case (1 n h p)
  show ?case by simp
next
  case (2 n h p t)
  show ?case by (auto simp: h_is_leaf)
next
  case (3 n h p t)
  show ?case by (auto simp: h_is_leaf)
next
  case (4 n h p c opr es)
  show ?case
  proof (intro impI)
    assume f: "\<forall>a<n. objs h' a = objs h a" and r: "h_is n h p (Some (EOp c opr es))"
    from r obtain a arr xs where p: "p = SRef a" "a < n" "objs h a = Some (OOp c opr arr)"
      "arr < n" "objs h arr = Some (OArray xs)" "h_are n h xs es"
      unfolding h_is_EOp by blast
    from 4[OF p(1) p(3) refl p(5) refl] f p(6) have "h_are n h' xs es" by blast
    with p f show "h_is n h' p (Some (EOp c opr es))" unfolding h_is_EOp by simp
  qed
next
  case (5 n h es)
  show ?case by simp
next
  case (6 n h x xs es)
  show ?case
  proof (intro impI)
    assume f: "\<forall>a<n. objs h' a = objs h a" and r: "h_are n h (x # xs) es"
    from r obtain e es' where e: "es = e # es'" "h_is n h x e" "h_are n h xs es'"
      unfolding h_are_Cons by blast
    from 6(1)[OF e(1)] 6(2)[OF e(1)] f e(2,3) have "h_is n h' x e" "h_are n h' xs es'" by blast+
    with e(1) show "h_are n h' (x # xs) es" unfolding h_are_Cons by simp
  qed
qed

lemma h_is_frame:
  assumes "\<forall>a<n. objs h' a = objs h a"
  shows "h_is n h p eo \<Longrightarrow> h_is n h' p eo"
    and "h_are n h xs es \<Longrightarrow> h_are n h' xs es"
  using assms h_is_frame_aux by blast+

lemma h_copyExpr_clones:
  assumes "objs g a = Some (OOp c opr arr)" and "objs g arr = Some (OArray xs)"
  shows "\<exists>a' arr' g'. h_copyExpr (SRef a) g = Inr (a', g')
           \<and> objs g' a' = Some (OOp c opr arr') \<and> objs g' arr' = Some (OArray xs)
           \<and> next_addr g \<le> a' \<and> next_addr g \<le> arr' \<and> a' \<noteq> arr'"
  using assms by (simp add: h_copy_args_def h_alloc_def Let_def)


text \<open>
  Claim C8. When \<open>_evalExpr\<close> ends, by returning or by throwing, every object that existed
  when it was called is what it was: the nodes of the program and their argument arrays
  are unchanged, so any expression stored in them, the evaluated one, its siblings or any
  other part of the program, is still the same expression. And the copy \<open>_copyExpr\<close>
  makes of an operation node is a new object with a new argument array that holds the same
  elements, which is where the literals are then written.
\<close>

theorem evaluation_leaves_ast_unchanged:
  assumes "h_evalExpr s e h = Some (r, h')"
  shows "(\<forall>a<next_addr h. objs h' a = objs h a)
       \<and> (h_is (next_addr h) h p ast \<longrightarrow> h_is (next_addr h) h' p ast)
       \<and> (objs g a = Some (OOp c opr arr) \<longrightarrow> objs g arr = Some (OArray xs) \<longrightarrow>
            (\<exists>a' arr' g'. h_copyExpr (SRef a) g = Inr (a', g')
               \<and> objs g' a' = Some (OOp c opr arr') \<and> objs g' arr' = Some (OArray xs)
               \<and> next_addr g \<le> a' \<and> next_addr g \<le> arr' \<and> a' \<noteq> arr'))"
proof -
  from h_evalExpr_ext[OF assms] have f: "\<forall>a<next_addr h. objs h' a = objs h a"
    by (simp add: h_ext_frame)
  with h_is_frame(1)[OF f] h_copyExpr_clones[of g a c opr arr xs] show ?thesis by blast
qed


text \<open>
  The expression \<open>cons (tl X) X\<close> stored in the empty heap, as the parser would, and
  evaluated with \<open>X\<close> bound to \<open>(nil.(nil.nil))\<close>.
\<close>

definition h_empty :: heap where
  "h_empty = \<lparr>objs = (\<lambda>a. None), next_addr = 0\<rparr>"

fun h_put :: "expr \<Rightarrow> heap \<Rightarrow> addr \<times> heap"
  and h_put_args :: "expr option list \<Rightarrow> heap \<Rightarrow> slot list \<times> heap" where
  "h_put (EIdent t) h = h_alloc (OIdent t) h"
| "h_put (ETree t) h = h_alloc (OTree t) h"
| "h_put (EOp c opr args) h =
     (let (xs, h1) = h_put_args args h;
          (arr, h2) = h_alloc (OArray xs) h1
      in h_alloc (OOp c opr arr) h2)"
| "h_put_args [] h = ([], h)"
| "h_put_args (None # as) h = (let (xs, h1) = h_put_args as h in (SNull # xs, h1))"
| "h_put_args (Some e # as) h =
     (let (a, h1) = h_put e h; (xs, h2) = h_put_args as h1 in (SRef a # xs, h2))"

definition pair_expr :: expr where
  "pair_expr =
     EOp True (tok Operation ''cons'' 0 0)
       [Some (EOp True (tok Operation ''tl'' 0 5) [Some (EIdent (tok Identifier ''X'' 0 8))]),
        Some (EIdent (tok Identifier ''X'' 0 10))]"

definition pair_heap :: "addr \<times> heap" where
  "pair_heap = h_put pair_expr h_empty"

definition pair_store :: store where
  "pair_store = Map.empty(Str ''X'' \<mapsto> Node Nil (Node Nil Nil))"

theorem evaluation_leaves_ast_unchanged_witness:
  "\<exists>h'. h_evalExpr pair_store (SRef (fst pair_heap)) (snd pair_heap)
           = Some (Inr (Node (Node Nil Nil) (Node Nil (Node Nil Nil))), h')
      \<and> h_is (next_addr (snd pair_heap)) (snd pair_heap) (SRef (fst pair_heap)) (Some pair_expr)
      \<and> h_is (next_addr (snd pair_heap)) h' (SRef (fst pair_heap)) (Some pair_expr)
      \<and> evalExpr pair_store (Some pair_expr) = Inr (Node (Node Nil Nil) (Node Nil (Node Nil Nil)))"
proof -
  let ?v = "Node (Node Nil Nil) (Node Nil (Node Nil Nil))"
  have "case h_evalExpr pair_store (SRef (fst pair_heap)) (snd pair_heap) of
          None \<Rightarrow> False | Some (r, h') \<Rightarrow> r = Inr ?v"
    by code_simp
  then obtain h' where
    r: "h_evalExpr pair_store (SRef (fst pair_heap)) (snd pair_heap) = Some (Inr ?v, h')"
    by (auto split: option.splits)
  have b: "h_is (next_addr (snd pair_heap)) (snd pair_heap) (SRef (fst pair_heap)) (Some pair_expr)"
    by code_simp
  from evaluation_leaves_ast_unchanged[OF r, of "SRef (fst pair_heap)" "Some pair_expr"] b
  have a: "h_is (next_addr (snd pair_heap)) h' (SRef (fst pair_heap)) (Some pair_expr)"
    by blast
  have v: "evalExpr pair_store (Some pair_expr) = Inr ?v" by code_simp
  from r b a v show ?thesis by blast
qed

end
